theory Spec2Isabelle
  imports Complex_Main "HOL-Library.AList"
begin

section \<open>Graph stores of lab-10\<close>

text \<open>
  The two classes of \<^verbatim>\<open>graph_representation.py\<close> are modelled as records. A Python
  \<^verbatim>\<open>dict\<close> whose iteration order is observable (the vertex tables) is an association
  list in insertion order: a lookup is \<^const>\<open>map_of\<close>, a store \<^verbatim>\<open>d[k] = v\<close> is
  \<^const>\<open>AList.update\<close> (in place for a known key, at the end for a new one), and
  \<^verbatim>\<open>k in d\<close> is \<open>k \<in> fst ` set d\<close>. Vertices are Python integers (\<^typ>\<open>int\<close>);
  weights are Python floats, modelled as \<^typ>\<open>real\<close>.
\<close>

subsection \<open>AdjacencyList\<close>

record adjacency_list =
  al_directed :: bool
  al_weighted :: bool
  al_graph :: "(int \<times> (int \<times> real) list) list"

definition al_init :: "bool \<Rightarrow> bool \<Rightarrow> adjacency_list" where
  "al_init directed weighted =
     \<lparr>al_directed = directed, al_weighted = weighted, al_graph = []\<rparr>"

text \<open>\<^verbatim>\<open>self.graph[u]\<close> on the \<^verbatim>\<open>defaultdict(list)\<close>: the stored list, or the empty one.\<close>

definition al_entry :: "adjacency_list \<Rightarrow> int \<Rightarrow> (int \<times> real) list" where
  "al_entry g u = (case map_of (al_graph g) u of None \<Rightarrow> [] | Some l \<Rightarrow> l)"

definition al_add_vertex :: "adjacency_list \<Rightarrow> int \<Rightarrow> adjacency_list" where
  "al_add_vertex g vertex =
     (if vertex \<notin> fst ` set (al_graph g)
      then g\<lparr>al_graph := AList.update vertex [] (al_graph g)\<rparr>
      else g)"

definition al_append :: "adjacency_list \<Rightarrow> int \<Rightarrow> int \<times> real \<Rightarrow> adjacency_list" where
  "al_append g u e = g\<lparr>al_graph := AList.update u (al_entry g u @ [e]) (al_graph g)\<rparr>"

definition al_add_edge :: "adjacency_list \<Rightarrow> int \<Rightarrow> int \<Rightarrow> real \<Rightarrow> adjacency_list" where
  "al_add_edge g u v weight =
     (let g1 = al_add_vertex g u;
          g2 = al_add_vertex g1 v;
          g3 = al_append g2 u (v, weight)
      in if \<not> al_directed g3 then al_append g3 v (u, weight) else g3)"

definition al_drop :: "adjacency_list \<Rightarrow> int \<Rightarrow> int \<Rightarrow> adjacency_list" where
  "al_drop g u v =
     g\<lparr>al_graph := AList.update u (filter (\<lambda>(neighbor, w). neighbor \<noteq> v) (al_entry g u))
                      (al_graph g)\<rparr>"

definition al_remove_edge :: "adjacency_list \<Rightarrow> int \<Rightarrow> int \<Rightarrow> adjacency_list" where
  "al_remove_edge g u v =
     (if u \<notin> fst ` set (al_graph g) then g
      else let g1 = al_drop g u v
           in if \<not> al_directed g1 \<and> v \<in> fst ` set (al_graph g1) then al_drop g1 v u else g1)"

definition al_has_edge :: "adjacency_list \<Rightarrow> int \<Rightarrow> int \<Rightarrow> bool" where
  "al_has_edge g u v =
     (if u \<notin> fst ` set (al_graph g) then False
      else list_ex (\<lambda>(neighbor, w). neighbor = v) (al_entry g u))"

text \<open>The loop of \<^verbatim>\<open>get_weight\<close> returns the weight of the first entry for \<open>v\<close>.\<close>

fun first_weight :: "int \<Rightarrow> (int \<times> real) list \<Rightarrow> real option" where
  "first_weight v [] = None"
| "first_weight v ((neighbor, weight) # rest) =
     (if neighbor = v then Some weight else first_weight v rest)"

definition al_get_weight :: "adjacency_list \<Rightarrow> int \<Rightarrow> int \<Rightarrow> real option" where
  "al_get_weight g u v =
     (if u \<notin> fst ` set (al_graph g) then None else first_weight v (al_entry g u))"

definition al_get_neighbors :: "adjacency_list \<Rightarrow> int \<Rightarrow> (int \<times> real) list" where
  "al_get_neighbors g vertex =
     (case map_of (al_graph g) vertex of None \<Rightarrow> [] | Some l \<Rightarrow> l)"

definition al_get_vertices :: "adjacency_list \<Rightarrow> int list" where
  "al_get_vertices g = map fst (al_graph g)"

text \<open>
  \<^verbatim>\<open>get_edges\<close> of both classes walks candidate edges in order and keeps one whose key
  has not been seen: the key is \<open>(min u v, max u v)\<close> for an undirected store and
  \<open>(u, v)\<close> for a directed one.
\<close>

definition edge_key :: "bool \<Rightarrow> int \<Rightarrow> int \<Rightarrow> int \<times> int" where
  "edge_key directed u v = (if \<not> directed then (min u v, max u v) else (u, v))"

fun collect_edges ::
  "bool \<Rightarrow> (int \<times> int \<times> real) list \<Rightarrow> (int \<times> int \<times> real) list \<Rightarrow> (int \<times> int) set
    \<Rightarrow> (int \<times> int \<times> real) list" where
  "collect_edges directed [] edges visited_edges = edges"
| "collect_edges directed ((u, v, weight) # rest) edges visited_edges =
     (if edge_key directed u v \<notin> visited_edges
      then collect_edges directed rest (edges @ [(u, v, weight)])
             (insert (edge_key directed u v) visited_edges)
      else collect_edges directed rest edges visited_edges)"

definition al_get_edges :: "adjacency_list \<Rightarrow> (int \<times> int \<times> real) list" where
  "al_get_edges g =
     collect_edges (al_directed g)
       (concat (map (\<lambda>u. map (\<lambda>(v, weight). (u, v, weight)) (al_entry g u))
                    (map fst (al_graph g))))
       [] {}"

definition al_get_vertex_count :: "adjacency_list \<Rightarrow> nat" where
  "al_get_vertex_count g = length (al_graph g)"

definition al_get_edge_count :: "adjacency_list \<Rightarrow> nat" where
  "al_get_edge_count g = length (al_get_edges g)"

subsection \<open>AdjacencyMatrix\<close>

text \<open>
  The matrix is a list of rows of optional weights (\<^verbatim>\<open>None\<close> is no edge). The
  subscripts \<^verbatim>\<open>self.vertices[u]\<close>, \<^verbatim>\<open>self.index_to_vertex[i]\<close> and
  \<^verbatim>\<open>self.matrix[i][j]\<close> raise in Python when the key or index is missing. Every method
  guards its vertex lookups by a membership test or by a preceding \<^verbatim>\<open>add_vertex\<close>, and
  on every store built from the constructor by the methods the indices are in range
  (\<open>am_wf\<close> below), so these subscripts are written with \<^const>\<open>the\<close> and \<^const>\<open>nth\<close>.
\<close>

record adjacency_matrix =
  am_directed :: bool
  am_weighted :: bool
  am_vertices :: "(int \<times> nat) list"
  am_index_to_vertex :: "(nat \<times> int) list"
  am_matrix :: "real option list list"
  am_vertex_count :: nat

definition am_init :: "bool \<Rightarrow> bool \<Rightarrow> adjacency_matrix" where
  "am_init directed weighted =
     \<lparr>am_directed = directed, am_weighted = weighted, am_vertices = [],
      am_index_to_vertex = [], am_matrix = [], am_vertex_count = 0\<rparr>"

definition am_index :: "adjacency_matrix \<Rightarrow> int \<Rightarrow> nat" where
  "am_index g u = the (map_of (am_vertices g) u)"

definition am_cell :: "adjacency_matrix \<Rightarrow> nat \<Rightarrow> nat \<Rightarrow> real option" where
  "am_cell g i j = am_matrix g ! i ! j"

definition am_set_cell :: "adjacency_matrix \<Rightarrow> nat \<Rightarrow> nat \<Rightarrow> real option \<Rightarrow> adjacency_matrix" where
  "am_set_cell g i j x = g\<lparr>am_matrix := (am_matrix g)[i := (am_matrix g ! i)[j := x]]\<rparr>"

definition am_add_vertex :: "adjacency_matrix \<Rightarrow> int \<Rightarrow> adjacency_matrix" where
  "am_add_vertex g vertex =
     (if vertex \<in> fst ` set (am_vertices g) then g
      else let n = am_vertex_count g;
               new_size = n + 1;
               new_matrix =
                 map (\<lambda>i. map (\<lambda>j. if i < n \<and> j < n then am_cell g i j else None)
                               [0..<new_size])
                     [0..<new_size]
           in g\<lparr>am_vertices := AList.update vertex n (am_vertices g),
                am_index_to_vertex := AList.update n vertex (am_index_to_vertex g),
                am_matrix := new_matrix,
                am_vertex_count := n + 1\<rparr>)"

definition am_add_edge :: "adjacency_matrix \<Rightarrow> int \<Rightarrow> int \<Rightarrow> real \<Rightarrow> adjacency_matrix" where
  "am_add_edge g u v weight =
     (let g1 = am_add_vertex g u;
          g2 = am_add_vertex g1 v;
          u_idx = am_index g2 u;
          v_idx = am_index g2 v;
          g3 = am_set_cell g2 u_idx v_idx (Some weight)
      in if \<not> am_directed g3 then am_set_cell g3 v_idx u_idx (Some weight) else g3)"

definition am_remove_edge :: "adjacency_matrix \<Rightarrow> int \<Rightarrow> int \<Rightarrow> adjacency_matrix" where
  "am_remove_edge g u v =
     (if u \<notin> fst ` set (am_vertices g) \<or> v \<notin> fst ` set (am_vertices g) then g
      else let u_idx = am_index g u;
               v_idx = am_index g v;
               g1 = am_set_cell g u_idx v_idx None
           in if \<not> am_directed g1 then am_set_cell g1 v_idx u_idx None else g1)"

definition am_has_edge :: "adjacency_matrix \<Rightarrow> int \<Rightarrow> int \<Rightarrow> bool" where
  "am_has_edge g u v =
     (if u \<notin> fst ` set (am_vertices g) \<or> v \<notin> fst ` set (am_vertices g) then False
      else am_cell g (am_index g u) (am_index g v) \<noteq> None)"

definition am_get_weight :: "adjacency_matrix \<Rightarrow> int \<Rightarrow> int \<Rightarrow> real option" where
  "am_get_weight g u v =
     (if \<not> am_has_edge g u v then None
      else am_cell g (am_index g u) (am_index g v))"

definition am_row_entries :: "adjacency_matrix \<Rightarrow> nat \<Rightarrow> (int \<times> real) list" where
  "am_row_entries g vertex_idx =
     concat (map (\<lambda>i. case am_cell g vertex_idx i of
                         None \<Rightarrow> []
                       | Some weight \<Rightarrow> [(the (map_of (am_index_to_vertex g) i), weight)])
                 [0..<am_vertex_count g])"

definition am_get_neighbors :: "adjacency_matrix \<Rightarrow> int \<Rightarrow> (int \<times> real) list" where
  "am_get_neighbors g vertex =
     (if vertex \<notin> fst ` set (am_vertices g) then []
      else am_row_entries g (am_index g vertex))"

definition am_get_vertices :: "adjacency_matrix \<Rightarrow> int list" where
  "am_get_vertices g = map fst (am_vertices g)"

definition am_get_edges :: "adjacency_matrix \<Rightarrow> (int \<times> int \<times> real) list" where
  "am_get_edges g =
     collect_edges (am_directed g)
       (concat (map (\<lambda>u. map (\<lambda>(v, weight). (u, v, weight)) (am_row_entries g (am_index g u)))
                    (map fst (am_vertices g))))
       [] {}"

definition am_get_vertex_count :: "adjacency_matrix \<Rightarrow> nat" where
  "am_get_vertex_count g = am_vertex_count g"

definition am_get_edge_count :: "adjacency_matrix \<Rightarrow> nat" where
  "am_get_edge_count g = length (am_get_edges g)"

subsection \<open>Sequences of mutations\<close>

datatype store_op = AddVertex int | AddEdge int int real | RemoveEdge int int

fun al_apply :: "adjacency_list \<Rightarrow> store_op \<Rightarrow> adjacency_list" where
  "al_apply g (AddVertex v) = al_add_vertex g v"
| "al_apply g (AddEdge u v w) = al_add_edge g u v w"
| "al_apply g (RemoveEdge u v) = al_remove_edge g u v"

fun am_apply :: "adjacency_matrix \<Rightarrow> store_op \<Rightarrow> adjacency_matrix" where
  "am_apply g (AddVertex v) = am_add_vertex g v"
| "am_apply g (AddEdge u v w) = am_add_edge g u v w"
| "am_apply g (RemoveEdge u v) = am_remove_edge g u v"

definition al_run :: "bool \<Rightarrow> bool \<Rightarrow> store_op list \<Rightarrow> adjacency_list" where
  "al_run directed weighted ops = foldl al_apply (al_init directed weighted) ops"

definition am_run :: "bool \<Rightarrow> bool \<Rightarrow> store_op list \<Rightarrow> adjacency_matrix" where
  "am_run directed weighted ops = foldl am_apply (am_init directed weighted) ops"

section \<open>Algorithms over either store\<close>

text \<open>
  The algorithms take any object with \<^verbatim>\<open>get_vertices\<close>, \<^verbatim>\<open>get_neighbors\<close> and
  \<^verbatim>\<open>directed\<close>; here that is one of the two stores.
\<close>

datatype graph = Matrix adjacency_matrix | AdjList adjacency_list

fun get_neighbors :: "graph \<Rightarrow> int \<Rightarrow> (int \<times> real) list" where
  "get_neighbors (Matrix g) vertex = am_get_neighbors g vertex"
| "get_neighbors (AdjList g) vertex = al_get_neighbors g vertex"

fun get_vertices :: "graph \<Rightarrow> int list" where
  "get_vertices (Matrix g) = am_get_vertices g"
| "get_vertices (AdjList g) = al_get_vertices g"

fun directed :: "graph \<Rightarrow> bool" where
  "directed (Matrix g) = am_directed g"
| "directed (AdjList g) = al_directed g"

datatype error = KeyError | ValueError

text \<open>
  A vertex that is not a key of the store has no neighbours; this is what bounds every
  traversal loop below.
\<close>

lemma get_neighbors_outside:
  "v \<notin> set (get_vertices g) \<Longrightarrow> get_neighbors g v = []"
proof (cases g)
  case (Matrix m)
  assume "v \<notin> set (get_vertices g)"
  with Matrix show ?thesis by (simp add: am_get_neighbors_def am_get_vertices_def)
next
  case (AdjList l)
  assume "v \<notin> set (get_vertices g)"
  with AdjList have "map_of (al_graph l) v = None"
    by (simp add: al_get_vertices_def map_of_eq_None_iff)
  with AdjList show ?thesis by (simp add: al_get_neighbors_def)
qed

subsection \<open>Depth-first search\<close>

text \<open>
  A Python list used as a stack (\<^verbatim>\<open>append\<close>, \<^verbatim>\<open>pop\<close>) is a list whose head is the
  top. \<open>push_unvisited\<close> is the loop that appends each neighbour not yet visited, in the
  order it is handed the neighbours.
\<close>

fun push_unvisited :: "int set \<Rightarrow> (int \<times> real) list \<Rightarrow> int list \<Rightarrow> int list" where
  "push_unvisited visited [] stack = stack"
| "push_unvisited visited ((neighbor, w) # rest) stack =
     push_unvisited visited rest (if neighbor \<notin> visited then neighbor # stack else stack)"

lemma push_unvisited_eq:
  "push_unvisited visited ns stack = rev (filter (\<lambda>n. n \<notin> visited) (map fst ns)) @ stack"
  by (induction ns arbitrary: stack) auto

function dfs_iterative_loop :: "graph \<Rightarrow> int list \<Rightarrow> int set \<Rightarrow> int list \<Rightarrow> int list" where
  "dfs_iterative_loop g [] visited result = result"
| "dfs_iterative_loop g (current # stack) visited result =
     (if current \<notin> visited
      then dfs_iterative_loop g
             (push_unvisited (insert current visited) (rev (get_neighbors g current)) stack)
             (insert current visited) (result @ [current])
      else dfs_iterative_loop g stack visited result)"
  by pat_completeness auto

definition dfs_measure :: "graph \<Rightarrow> int list \<Rightarrow> int set \<Rightarrow> nat \<times> nat" where
  "dfs_measure g stack visited = (card (set (get_vertices g) - visited), length stack)"

lemma dfs_measure_visit:
  assumes "current \<notin> visited" and that: "ns' = [] \<or> current \<in> set (get_vertices g)"
  shows "(dfs_measure g (push_unvisited (insert current visited) ns' stack) (insert current visited),
          dfs_measure g (current # stack) visited) \<in> less_than <*lex*> less_than"
proof (cases "current \<in> set (get_vertices g)")
  case True
  have "set (get_vertices g) - insert current visited \<subset> set (get_vertices g) - visited"
    using True assms by auto
  then have "card (set (get_vertices g) - insert current visited)
             < card (set (get_vertices g) - visited)"
    by (intro psubset_card_mono) auto
  then show ?thesis by (simp add: dfs_measure_def)
next
  case False
  with that have "ns' = []" by simp
  moreover have "set (get_vertices g) - insert current visited = set (get_vertices g) - visited"
    using False by auto
  ultimately show ?thesis by (simp add: dfs_measure_def)
qed

termination dfs_iterative_loop
proof (relation "inv_image (less_than <*lex*> less_than) (\<lambda>(g, stack, visited, result). dfs_measure g stack visited)")
  show "wf (inv_image (less_than <*lex*> less_than)
          (\<lambda>(g, stack, visited, result). dfs_measure g stack visited))"
    by (intro wf_inv_image wf_lex_prod wf_less_than)
next
  fix g :: graph and current :: int and stack :: "int list" and visited :: "int set"
    and result :: "int list"
  assume c: "current \<notin> visited"
  have "rev (get_neighbors g current) = [] \<or> current \<in> set (get_vertices g)"
    using get_neighbors_outside [of current g] by auto
  from dfs_measure_visit [OF c this]
  show "((g, push_unvisited (insert current visited) (rev (get_neighbors g current)) stack,
          insert current visited, result @ [current]),
         g, current # stack, visited, result)
        \<in> inv_image (less_than <*lex*> less_than)
            (\<lambda>(g, stack, visited, result). dfs_measure g stack visited)"
    by simp
next
  fix g :: graph and current :: int and stack :: "int list" and visited :: "int set"
    and result :: "int list"
  assume "\<not> current \<notin> visited"
  show "((g, stack, visited, result), g, current # stack, visited, result)
        \<in> inv_image (less_than <*lex*> less_than)
            (\<lambda>(g, stack, visited, result). dfs_measure g stack visited)"
    by (simp add: dfs_measure_def)
qed

definition dfs_iterative :: "graph \<Rightarrow> int \<Rightarrow> int list" where
  "dfs_iterative g start = dfs_iterative_loop g [start] {} []"

text \<open>
  \<^verbatim>\<open>dfs_recursive\<close> calls itself inside its loop over the neighbours, threading the
  shared \<^verbatim>\<open>visited\<close> set. The function has no depth parameter of its own: its nesting
  is limited by the interpreter, which raises \<^verbatim>\<open>RecursionError\<close> in the call that would
  exceed the recursion limit (the docstring warns of it, and \<^verbatim>\<open>main.py\<close> catches it).
  The first argument is the number of nested calls of \<^verbatim>\<open>dfs_recursive\<close> that the limit
  leaves room for (at most 1000 under the default limit); the \<^verbatim>\<open>RecursionError\<close>,
  which no frame of the function catches, is the result \<open>None\<close>.
  \<open>dfs_recursive_neighbors\<close> is the body's \<^verbatim>\<open>for\<close> loop, \<open>dfs_recursive_call\<close> one call
  with a given \<^verbatim>\<open>visited\<close>.
\<close>

fun dfs_recursive_call :: "nat \<Rightarrow> graph \<Rightarrow> int \<Rightarrow> int set \<Rightarrow> (int list \<times> int set) option"
and dfs_recursive_neighbors ::
  "nat \<Rightarrow> graph \<Rightarrow> (int \<times> real) list \<Rightarrow> int set \<Rightarrow> int list \<Rightarrow> (int list \<times> int set) option"
where
  "dfs_recursive_call 0 g start visited = None"
| "dfs_recursive_call (Suc depth) g start visited =
     dfs_recursive_neighbors depth g (get_neighbors g start) (insert start visited) [start]"
| "dfs_recursive_neighbors depth g [] visited result = Some (result, visited)"
| "dfs_recursive_neighbors depth g ((neighbor, w) # rest) visited result =
     (if neighbor \<notin> visited
      then (case dfs_recursive_call depth g neighbor visited of
              None \<Rightarrow> None
            | Some (sub, visited') \<Rightarrow>
                dfs_recursive_neighbors depth g rest visited' (result @ sub))
      else dfs_recursive_neighbors depth g rest visited result)"

definition dfs_recursive :: "nat \<Rightarrow> graph \<Rightarrow> int \<Rightarrow> int list option" where
  "dfs_recursive depth g start = map_option fst (dfs_recursive_call depth g start {})"

subsection \<open>Breadth-first search\<close>

text \<open>
  The dictionaries an algorithm builds and returns (\<^verbatim>\<open>distances\<close>, \<^verbatim>\<open>parents\<close>) are
  maps; \<^verbatim>\<open>parents\<close> stores \<^verbatim>\<open>None\<close> for the start vertex, so its values are options. A
  subscript on a missing key is the error \<open>KeyError\<close>.
\<close>

type_synonym bfs_state = "(int \<rightharpoonup> int) \<times> (int \<rightharpoonup> int option) \<times> int list \<times> int set"

fun bfs_visit_neighbors :: "int \<Rightarrow> int \<Rightarrow> (int \<times> real) list \<Rightarrow> bfs_state \<Rightarrow> bfs_state" where
  "bfs_visit_neighbors current current_distance [] st = st"
| "bfs_visit_neighbors current current_distance ((neighbor, w) # rest)
       (distances, parents, queue, visited) =
     (if neighbor \<notin> visited
      then bfs_visit_neighbors current current_distance rest
             (distances(neighbor \<mapsto> current_distance + 1), parents(neighbor \<mapsto> Some current),
              queue @ [neighbor], insert neighbor visited)
      else bfs_visit_neighbors current current_distance rest (distances, parents, queue, visited))"

definition neighbor_universe :: "graph \<Rightarrow> int set" where
  "neighbor_universe g = (\<Union>v \<in> set (get_vertices g). fst ` set (get_neighbors g v))"

lemma neighbor_universe_finite: "finite (neighbor_universe g)"
  by (simp add: neighbor_universe_def)

lemma neighbor_in_universe: "fst ` set (get_neighbors g v) \<subseteq> neighbor_universe g"
proof (cases "v \<in> set (get_vertices g)")
  case True
  then show ?thesis unfolding neighbor_universe_def by blast
next
  case False
  then show ?thesis by (simp add: get_neighbors_outside)
qed

lemma bfs_visit_neighbors_visited:
  "bfs_visit_neighbors c d ns (D, P, Q, V) = (D', P', Q', V') \<Longrightarrow>
     V' = V \<union> fst ` set ns \<and> (V' = V \<longrightarrow> Q' = Q)"
proof (induction ns arbitrary: D P Q V)
  case Nil
  then show ?case by simp
next
  case (Cons a ns)
  obtain n w where a: "a = (n, w)" by (cases a)
  show ?case
  proof (cases "n \<in> V")
    case True
    with Cons a show ?thesis by auto
  next
    case False
    with Cons.prems a have
      "bfs_visit_neighbors c d ns (D(n \<mapsto> d + 1), P(n \<mapsto> Some c), Q @ [n], insert n V)
         = (D', P', Q', V')" by simp
    from Cons.IH [OF this] have "V' = insert n V \<union> fst ` set ns" by simp
    with False a show ?thesis by auto
  qed
qed

function bfs_loop :: "graph \<Rightarrow> bfs_state \<Rightarrow> error + ((int \<rightharpoonup> int) \<times> (int \<rightharpoonup> int option))" where
  "bfs_loop g (distances, parents, [], visited) = Inr (distances, parents)"
| "bfs_loop g (distances, parents, current # queue, visited) =
     (case distances current of
        None \<Rightarrow> Inl KeyError
      | Some current_distance \<Rightarrow>
          bfs_loop g (bfs_visit_neighbors current current_distance (get_neighbors g current)
                        (distances, parents, queue, visited)))"
  by pat_completeness auto

termination bfs_loop
proof (relation "inv_image (less_than <*lex*> less_than)
         (\<lambda>(g, D, P, Q, V). (card (neighbor_universe g - V), length Q))")
  show "wf (inv_image (less_than <*lex*> less_than)
         (\<lambda>(g, D, P, Q, V). (card (neighbor_universe g - V), length Q)))"
    by (intro wf_inv_image wf_lex_prod wf_less_than)
next
  fix g :: graph and distances :: "int \<rightharpoonup> int" and parents :: "int \<rightharpoonup> int option"
    and current :: int and queue :: "int list" and visited :: "int set" and d :: int
  obtain D' P' Q' V' where
    st: "bfs_visit_neighbors current d (get_neighbors g current) (distances, parents, queue, visited)
           = (D', P', Q', V')"
    by (cases "bfs_visit_neighbors current d (get_neighbors g current)
                 (distances, parents, queue, visited)") auto
  from bfs_visit_neighbors_visited [OF st] have
    V': "V' = visited \<union> fst ` set (get_neighbors g current)" and Q': "V' = visited \<Longrightarrow> Q' = queue"
    by auto
  have "(card (neighbor_universe g - V'), length Q') = (card (neighbor_universe g - visited), length queue)
        \<or> card (neighbor_universe g - V') < card (neighbor_universe g - visited)"
  proof (cases "V' = visited")
    case True
    with Q' show ?thesis by simp
  next
    case False
    with V' neighbor_in_universe [of g current] have
      "neighbor_universe g - V' \<subset> neighbor_universe g - visited" by auto
    then have "card (neighbor_universe g - V') < card (neighbor_universe g - visited)"
      by (intro psubset_card_mono) (auto simp: neighbor_universe_finite)
    then show ?thesis by simp
  qed
  then show "((g, bfs_visit_neighbors current d (get_neighbors g current)
                 (distances, parents, queue, visited)),
              g, distances, parents, current # queue, visited)
        \<in> inv_image (less_than <*lex*> less_than)
            (\<lambda>(g, D, P, Q, V). (card (neighbor_universe g - V), length Q))"
    unfolding st by auto
qed

definition bfs :: "graph \<Rightarrow> int \<Rightarrow> error + ((int \<rightharpoonup> int) \<times> (int \<rightharpoonup> int option))" where
  "bfs g start = bfs_loop g ([start \<mapsto> 0], [start \<mapsto> None], [start], {start})"

text \<open>
  The loop that walks \<^verbatim>\<open>parents\<close> back from \<^verbatim>\<open>end\<close> has no bound of its own (a cyclic
  \<^verbatim>\<open>parents\<close> would keep it running), so it is a partial function: the outer \<open>None\<close>
  is "does not return".
\<close>

partial_function (option) walk_parents ::
  "(int \<rightharpoonup> int option) \<Rightarrow> int option \<Rightarrow> int list \<Rightarrow> (error + int list) option" where
  "walk_parents parents current path =
     (case current of
        None \<Rightarrow> Some (Inr path)
      | Some c \<Rightarrow>
          (case parents c of
             None \<Rightarrow> Some (Inl KeyError)
           | Some p \<Rightarrow> walk_parents parents p (path @ [c])))"

definition bfs_path :: "graph \<Rightarrow> int \<Rightarrow> int \<Rightarrow> (error + int list option) option" where
  "bfs_path g start end_vertex =
     (case bfs g start of
        Inl e \<Rightarrow> Some (Inl e)
      | Inr (distances, parents) \<Rightarrow>
          if end_vertex \<notin> dom distances then Some (Inr None)
          else (case walk_parents parents (Some end_vertex) [] of
                  None \<Rightarrow> None
                | Some (Inl e) \<Rightarrow> Some (Inl e)
                | Some (Inr path) \<Rightarrow> Some (Inr (Some (rev path)))))"

subsection \<open>Dijkstra\<close>

text \<open>
  A tentative distance is a Python float that may be \<^verbatim>\<open>float('inf')\<close>. The priority
  queue holds \<^verbatim>\<open>(distance, vertex)\<close> tuples, which Python compares lexicographically;
  \<^verbatim>\<open>heapq\<close> is modelled by what it guarantees: \<^verbatim>\<open>heappop\<close> removes and returns the
  least tuple. The queue is therefore a list kept in ascending order, \<open>heappush\<close> inserts
  in place and \<^verbatim>\<open>heappop\<close> takes the head.
\<close>

datatype pyfloat = Finite real | Infinity

fun float_less :: "real \<Rightarrow> pyfloat \<Rightarrow> bool" where
  "float_less x (Finite y) = (x < y)"
| "float_less x Infinity = True"

fun heappush :: "(real \<times> int) list \<Rightarrow> real \<times> int \<Rightarrow> (real \<times> int) list" where
  "heappush [] item = [item]"
| "heappush ((d', v') # rest) (d, v) =
     (if d < d' \<or> (d = d' \<and> v \<le> v') then (d, v) # (d', v') # rest
      else (d', v') # heappush rest (d, v))"

type_synonym dijkstra_state =
  "(int \<rightharpoonup> pyfloat) \<times> (int \<rightharpoonup> int option) \<times> (real \<times> int) list"

fun dijkstra_relax ::
  "real \<Rightarrow> int \<Rightarrow> int set \<Rightarrow> (int \<times> real) list \<Rightarrow> dijkstra_state \<Rightarrow> error + dijkstra_state" where
  "dijkstra_relax current_dist current visited [] st = Inr st"
| "dijkstra_relax current_dist current visited ((neighbor, weight) # rest) (distances, parents, pq) =
     (if neighbor \<in> visited
      then dijkstra_relax current_dist current visited rest (distances, parents, pq)
      else (case distances neighbor of
              None \<Rightarrow> Inl KeyError
            | Some old \<Rightarrow>
                if float_less (current_dist + weight) old
                then dijkstra_relax current_dist current visited rest
                       (distances(neighbor \<mapsto> Finite (current_dist + weight)),
                        parents(neighbor \<mapsto> Some current),
                        heappush pq (current_dist + weight, neighbor))
                else dijkstra_relax current_dist current visited rest (distances, parents, pq)))"

function dijkstra_loop ::
  "graph \<Rightarrow> dijkstra_state \<Rightarrow> int set \<Rightarrow> error + ((int \<rightharpoonup> pyfloat) \<times> (int \<rightharpoonup> int option))" where
  "dijkstra_loop g (distances, parents, []) visited = Inr (distances, parents)"
| "dijkstra_loop g (distances, parents, (current_dist, current) # pq) visited =
     (if current \<in> visited then dijkstra_loop g (distances, parents, pq) visited
      else (case dijkstra_relax current_dist current (insert current visited)
                   (get_neighbors g current) (distances, parents, pq) of
              Inl e \<Rightarrow> Inl e
            | Inr st \<Rightarrow> dijkstra_loop g st (insert current visited)))"
  by pat_completeness auto

termination dijkstra_loop
proof (relation "inv_image (less_than <*lex*> less_than)
         (\<lambda>(g, (D, P, pq), V). (card (set (get_vertices g) - V), length pq))")
  show "wf (inv_image (less_than <*lex*> less_than)
         (\<lambda>(g, (D, P, pq), V). (card (set (get_vertices g) - V), length pq)))"
    by (intro wf_inv_image wf_lex_prod wf_less_than)
next
  fix g :: graph and distances :: "int \<rightharpoonup> pyfloat" and parents :: "int \<rightharpoonup> int option"
    and current_dist :: real and current :: int and pq :: "(real \<times> int) list"
    and visited :: "int set"
  show "((g, (distances, parents, pq), visited),
         g, (distances, parents, (current_dist, current) # pq), visited)
        \<in> inv_image (less_than <*lex*> less_than)
            (\<lambda>(g, (D, P, pq), V). (card (set (get_vertices g) - V), length pq))"
    by simp
next
  fix g :: graph and distances :: "int \<rightharpoonup> pyfloat" and parents :: "int \<rightharpoonup> int option"
    and current_dist :: real and current :: int and pq :: "(real \<times> int) list"
    and visited :: "int set" and st :: dijkstra_state
  assume c: "current \<notin> visited"
    and r: "dijkstra_relax current_dist current (insert current visited)
              (get_neighbors g current) (distances, parents, pq) = Inr st"
  obtain D' P' pq' where st: "st = (D', P', pq')" by (cases st)
  have "(card (set (get_vertices g) - insert current visited), length pq')
        \<in> {(a, b). a < card (set (get_vertices g) - visited)
                     \<or> (a = card (set (get_vertices g) - visited) \<and> b < Suc (length pq))}"
  proof (cases "current \<in> set (get_vertices g)")
    case True
    with c have "set (get_vertices g) - insert current visited \<subset> set (get_vertices g) - visited"
      by auto
    then have "card (set (get_vertices g) - insert current visited)
               < card (set (get_vertices g) - visited)"
      by (intro psubset_card_mono) auto
    then show ?thesis by simp
  next
    case False
    with r st have "pq' = pq" by (simp add: get_neighbors_outside)
    moreover from False have
      "set (get_vertices g) - insert current visited = set (get_vertices g) - visited" by auto
    ultimately show ?thesis by simp
  qed
  then show "((g, st, insert current visited),
              g, (distances, parents, (current_dist, current) # pq), visited)
        \<in> inv_image (less_than <*lex*> less_than)
            (\<lambda>(g, (D, P, pq), V). (card (set (get_vertices g) - V), length pq))"
    by (simp add: st)
qed

definition dijkstra ::
  "graph \<Rightarrow> int \<Rightarrow> error + ((int \<rightharpoonup> pyfloat) \<times> (int \<rightharpoonup> int option))" where
  "dijkstra g start =
     (let distances = (map_of (map (\<lambda>v. (v, Infinity)) (get_vertices g)))(start \<mapsto> Finite 0);
          parents = map_of (map (\<lambda>v. (v, None)) (get_vertices g))
      in dijkstra_loop g (distances, parents, [(0, start)]) {})"

definition dijkstra_path ::
  "graph \<Rightarrow> int \<Rightarrow> int \<Rightarrow> (error + (int list \<times> pyfloat) option) option" where
  "dijkstra_path g start end_vertex =
     (case dijkstra g start of
        Inl e \<Rightarrow> Some (Inl e)
      | Inr (distances, parents) \<Rightarrow>
          (case distances end_vertex of
             None \<Rightarrow> Some (Inl KeyError)
           | Some d \<Rightarrow>
               if d = Infinity then Some (Inr None)
               else (case walk_parents parents (Some end_vertex) [] of
                       None \<Rightarrow> None
                     | Some (Inl e) \<Rightarrow> Some (Inl e)
                     | Some (Inr path) \<Rightarrow> Some (Inr (Some (rev path, d))))))"

subsection \<open>Connectivity\<close>

function dfs_component_loop ::
  "graph \<Rightarrow> int list \<Rightarrow> int set \<Rightarrow> int list \<Rightarrow> int list \<times> int set" where
  "dfs_component_loop g [] visited component = (component, visited)"
| "dfs_component_loop g (current # stack) visited component =
     (if current \<notin> visited
      then dfs_component_loop g
             (push_unvisited (insert current visited) (get_neighbors g current) stack)
             (insert current visited) (component @ [current])
      else dfs_component_loop g stack visited component)"
  by pat_completeness auto

termination dfs_component_loop
proof (relation "inv_image (less_than <*lex*> less_than)
         (\<lambda>(g, stack, visited, component). dfs_measure g stack visited)")
  show "wf (inv_image (less_than <*lex*> less_than)
          (\<lambda>(g, stack, visited, component). dfs_measure g stack visited))"
    by (intro wf_inv_image wf_lex_prod wf_less_than)
next
  fix g :: graph and current :: int and stack :: "int list" and visited :: "int set"
    and component :: "int list"
  assume c: "current \<notin> visited"
  have "get_neighbors g current = [] \<or> current \<in> set (get_vertices g)"
    using get_neighbors_outside [of current g] by auto
  from dfs_measure_visit [OF c this]
  show "((g, push_unvisited (insert current visited) (get_neighbors g current) stack,
          insert current visited, component @ [current]),
         g, current # stack, visited, component)
        \<in> inv_image (less_than <*lex*> less_than)
            (\<lambda>(g, stack, visited, component). dfs_measure g stack visited)"
    by simp
next
  fix g :: graph and current :: int and stack :: "int list" and visited :: "int set"
    and component :: "int list"
  show "((g, stack, visited, component), g, current # stack, visited, component)
        \<in> inv_image (less_than <*lex*> less_than)
            (\<lambda>(g, stack, visited, component). dfs_measure g stack visited)"
    by (simp add: dfs_measure_def)
qed

text \<open>\<^verbatim>\<open>Connectivity._dfs_component\<close>: the component list and the updated \<^verbatim>\<open>visited\<close>.\<close>

definition dfs_component :: "graph \<Rightarrow> int \<Rightarrow> int set \<Rightarrow> int list \<times> int set" where
  "dfs_component g start visited = dfs_component_loop g [start] visited []"

fun find_components_loop ::
  "graph \<Rightarrow> int list \<Rightarrow> int set \<Rightarrow> int list list \<Rightarrow> int list list" where
  "find_components_loop g [] visited components = components"
| "find_components_loop g (vertex # rest) visited components =
     (if vertex \<notin> visited
      then (case dfs_component g vertex visited of
              (component, visited') \<Rightarrow>
                find_components_loop g rest visited' (components @ [component]))
      else find_components_loop g rest visited components)"

definition find_connected_components :: "graph \<Rightarrow> int list list" where
  "find_connected_components g = find_components_loop g (get_vertices g) {} []"

definition is_connected :: "graph \<Rightarrow> bool" where
  "is_connected g =
     (if get_vertices g = [] then True
      else length (find_connected_components g) = 1)"

subsection \<open>Topological sort\<close>

text \<open>
  \<^verbatim>\<open>in_degree\<close> is iterated (\<^verbatim>\<open>in_degree.items()\<close>) to seed the queue, so its order is
  observable and it is an association list.
\<close>

fun count_in_degree :: "(int \<times> real) list \<Rightarrow> (int \<times> int) list \<Rightarrow> (int \<times> int) list" where
  "count_in_degree [] in_degree = in_degree"
| "count_in_degree ((v, w) # rest) in_degree =
     count_in_degree rest
       (AList.update v ((case map_of in_degree v of None \<Rightarrow> 0 | Some c \<Rightarrow> c) + 1) in_degree)"

definition initial_in_degree :: "graph \<Rightarrow> (int \<times> int) list" where
  "initial_in_degree g =
     fold (\<lambda>u in_degree. count_in_degree (get_neighbors g u) in_degree) (get_vertices g)
       (fold (\<lambda>v in_degree. AList.update v 0 in_degree) (get_vertices g) [])"

fun kahn_decrement ::
  "(int \<times> real) list \<Rightarrow> (int \<times> int) list \<times> int list \<Rightarrow> error + ((int \<times> int) list \<times> int list)" where
  "kahn_decrement [] st = Inr st"
| "kahn_decrement ((neighbor, w) # rest) (in_degree, queue) =
     (case map_of in_degree neighbor of
        None \<Rightarrow> Inl KeyError
      | Some c \<Rightarrow>
          kahn_decrement rest
            (AList.update neighbor (c - 1) in_degree,
             if c - 1 = 0 then queue @ [neighbor] else queue))"

definition kahn_measure :: "(int \<times> int) list \<Rightarrow> int list \<Rightarrow> nat" where
  "kahn_measure in_degree queue = 2 * length (filter (\<lambda>(v, c). 0 < c) in_degree) + length queue"

lemma positive_entries_update:
  "map_of in_degree k = Some c \<Longrightarrow>
     length (filter (\<lambda>(v, c). 0 < c) (AList.update k c' in_degree)) + (if 0 < c then 1 else 0)
       = length (filter (\<lambda>(v, c). (0::int) < c) in_degree) + (if 0 < c' then 1 else 0)"
  by (induction in_degree) (auto split: if_splits)

lemma kahn_decrement_measure:
  "kahn_decrement ns (in_degree, queue) = Inr (in_degree', queue') \<Longrightarrow>
     kahn_measure in_degree' queue' \<le> kahn_measure in_degree queue"
proof (induction ns arbitrary: in_degree queue)
  case Nil
  then show ?case by simp
next
  case (Cons a ns)
  obtain n w where a: "a = (n, w)" by (cases a)
  from Cons.prems a obtain c where c: "map_of in_degree n = Some c"
    by (auto split: option.splits)
  with Cons.prems a have
    "kahn_decrement ns (AList.update n (c - 1) in_degree, if c - 1 = 0 then queue @ [n] else queue)
       = Inr (in_degree', queue')" by simp
  from Cons.IH [OF this] have
    "kahn_measure in_degree' queue'
       \<le> kahn_measure (AList.update n (c - 1) in_degree) (if c - 1 = 0 then queue @ [n] else queue)" .
  also have "\<dots> \<le> kahn_measure in_degree queue"
  proof (cases "c = 1")
    case True
    with positive_entries_update [OF c, of 0] show ?thesis
      by (simp add: kahn_measure_def)
  next
    case False
    with positive_entries_update [OF c, of "c - 1"] show ?thesis
      by (simp add: kahn_measure_def split: if_splits)
  qed
  finally show ?case .
qed

function kahn_loop :: "graph \<Rightarrow> (int \<times> int) list \<Rightarrow> int list \<Rightarrow> int list \<Rightarrow> error + int list" where
  "kahn_loop g in_degree [] result = Inr result"
| "kahn_loop g in_degree (current # queue) result =
     (case kahn_decrement (get_neighbors g current) (in_degree, queue) of
        Inl e \<Rightarrow> Inl e
      | Inr (in_degree', queue') \<Rightarrow> kahn_loop g in_degree' queue' (result @ [current]))"
  by pat_completeness auto

termination kahn_loop
proof (relation "measure (\<lambda>(g, in_degree, queue, result). kahn_measure in_degree queue)")
  show "wf (measure (\<lambda>(g, in_degree, queue, result). kahn_measure in_degree queue))"
    by simp
next
  fix g :: graph and in_degree :: "(int \<times> int) list" and current :: int and queue :: "int list"
    and result :: "int list" and st :: "(int \<times> int) list \<times> int list"
    and in_degree' :: "(int \<times> int) list" and queue' :: "int list"
  assume "kahn_decrement (get_neighbors g current) (in_degree, queue) = Inr st"
    and "(in_degree', queue') = st"
  then have "kahn_decrement (get_neighbors g current) (in_degree, queue) = Inr (in_degree', queue')"
    by simp
  from kahn_decrement_measure [OF this]
  have "kahn_measure in_degree' queue' < kahn_measure in_degree (current # queue)"
    by (simp add: kahn_measure_def)
  then show "((g, in_degree', queue', result @ [current]), g, in_degree, current # queue, result)
        \<in> measure (\<lambda>(g, in_degree, queue, result). kahn_measure in_degree queue)"
    by simp
qed

definition topological_sort :: "graph \<Rightarrow> error + int list option" where
  "topological_sort g =
     (if \<not> directed g then Inl ValueError
      else let in_degree = initial_in_degree g;
               queue = map fst (filter (\<lambda>(v, degree). degree = 0) in_degree)
           in (case kahn_loop g in_degree queue [] of
                 Inl e \<Rightarrow> Inl e
               | Inr result \<Rightarrow>
                   if length result \<noteq> length (get_vertices g) then Inr None
                   else Inr (Some result)))"

text \<open>
  The nested \<^verbatim>\<open>dfs\<close> of \<^verbatim>\<open>topological_sort_dfs\<close> shares \<^verbatim>\<open>visited\<close>, \<^verbatim>\<open>rec_stack\<close>
  and \<^verbatim>\<open>result\<close> with its caller and calls itself inside its loop; as for
  \<open>dfs_recursive_call\<close> the first argument bounds the depth of nested calls. It returns
  the boolean of the source with the updated state.
\<close>

type_synonym topo_state = "int set \<times> int set \<times> int list"

fun topo_dfs :: "nat \<Rightarrow> graph \<Rightarrow> int \<Rightarrow> topo_state \<Rightarrow> (bool \<times> topo_state) option"
and topo_dfs_neighbors ::
  "nat \<Rightarrow> graph \<Rightarrow> (int \<times> real) list \<Rightarrow> topo_state \<Rightarrow> (bool \<times> topo_state) option"
where
  "topo_dfs 0 g vertex st = None"
| "topo_dfs (Suc depth) g vertex (visited, rec_stack, result) =
     (if vertex \<in> rec_stack then Some (False, (visited, rec_stack, result))
      else if vertex \<in> visited then Some (True, (visited, rec_stack, result))
      else (case topo_dfs_neighbors depth g (get_neighbors g vertex)
                   (insert vertex visited, insert vertex rec_stack, result) of
              None \<Rightarrow> None
            | Some (False, st') \<Rightarrow> Some (False, st')
            | Some (True, (visited', rec_stack', result')) \<Rightarrow>
                Some (True, (visited', rec_stack' - {vertex}, result' @ [vertex]))))"
| "topo_dfs_neighbors depth g [] st = Some (True, st)"
| "topo_dfs_neighbors depth g ((neighbor, w) # rest) st =
     (case topo_dfs depth g neighbor st of
        None \<Rightarrow> None
      | Some (False, st') \<Rightarrow> Some (False, st')
      | Some (True, st') \<Rightarrow> topo_dfs_neighbors depth g rest st')"

fun topo_dfs_vertices :: "nat \<Rightarrow> graph \<Rightarrow> int list \<Rightarrow> topo_state \<Rightarrow> (int list option) option" where
  "topo_dfs_vertices depth g [] (visited, rec_stack, result) = Some (Some (rev result))"
| "topo_dfs_vertices depth g (vertex # rest) (visited, rec_stack, result) =
     (if vertex \<notin> visited
      then (case topo_dfs depth g vertex (visited, rec_stack, result) of
              None \<Rightarrow> None
            | Some (False, st') \<Rightarrow> Some None
            | Some (True, st') \<Rightarrow> topo_dfs_vertices depth g rest st')
      else topo_dfs_vertices depth g rest (visited, rec_stack, result))"

definition topological_sort_dfs :: "nat \<Rightarrow> graph \<Rightarrow> (error + int list option) option" where
  "topological_sort_dfs depth g =
     (if \<not> directed g then Some (Inl ValueError)
      else map_option Inr (topo_dfs_vertices depth g (get_vertices g) ({}, {}, [])))"

declare walk_parents.simps [code]

subsection \<open>Example graphs of the test properties\<close>

definition reference_ops :: "store_op list" where
  "reference_ops = [AddEdge 1 2 2, AddEdge 2 3 3, AddEdge 1 4 1, AddEdge 2 5 4, AddEdge 4 5 1]"

definition dag_ops :: "store_op list" where
  "dag_ops = [AddEdge 1 2 1, AddEdge 1 3 1, AddEdge 2 4 1, AddEdge 3 4 1]"

definition cycle_ops :: "store_op list" where
  "cycle_ops = [AddEdge 1 2 1, AddEdge 2 3 1, AddEdge 3 1 1]"

text \<open>
  The directed path 0\<rightarrow>1\<rightarrow>\<dots>\<rightarrow>n: \<^verbatim>\<open>add_vertex(0)\<close>, then \<^verbatim>\<open>add_edge(i, i+1, 1.0)\<close> for
  \<^verbatim>\<open>i in range(n)\<close>.
\<close>

definition path_ops :: "nat \<Rightarrow> store_op list" where
  "path_ops n = AddVertex 0 # map (\<lambda>i. AddEdge (int i) (int i + 1) 1) [0..<n]"

text \<open>\<^verbatim>\<open>order.index(x)\<close>, as an option: the position of the first \<open>x\<close>.\<close>

fun index_of :: "int \<Rightarrow> int list \<Rightarrow> nat option" where
  "index_of x [] = None"
| "index_of x (y # ys) = (if x = y then Some 0 else map_option Suc (index_of x ys))"

definition precedes :: "int list \<Rightarrow> int \<Rightarrow> int \<Rightarrow> bool" where
  "precedes order a b =
     (case (index_of a order, index_of b order) of
        (Some i, Some j) \<Rightarrow> i < j
      | _ \<Rightarrow> False)"

definition dag_order :: "int list \<Rightarrow> bool" where
  "dag_order order =
     (distinct order \<and> set order = {1, 2, 3, 4} \<and> precedes order 1 2 \<and> precedes order 1 3
        \<and> precedes order 2 4 \<and> precedes order 3 4)"

subsection \<open>Invariants of the stores\<close>

text \<open>
  Predicates used to state what holds of every store that the constructor and the three
  mutating methods can build. \<open>am_wf\<close> is the shape of a matrix store: the matrix is
  square of side \<^verbatim>\<open>vertex_count\<close>, the vertices are numbered \<open>0, 1, ...\<close> in insertion
  order, and \<^verbatim>\<open>index_to_vertex\<close> is the inverse table. \<open>al_closed\<close> says that every
  neighbour stored in a list store is one of its keys; \<open>al_symmetric\<close> that the entries
  for \<open>v\<close> under \<open>u\<close> carry the same weights, in the same order, as the entries for
  \<open>u\<close> under \<open>v\<close>; \<open>al_functional\<close> that all entries for one neighbour carry the weight
  \<^verbatim>\<open>get_weight\<close> reports. \<open>fresh_edges g ops\<close> says that no \<^verbatim>\<open>add_edge\<close> of \<open>ops\<close>,
  run from \<open>g\<close>, names a pair that \<^verbatim>\<open>has_edge\<close> already reports.
\<close>

definition al_keys :: "adjacency_list \<Rightarrow> int set" where
  "al_keys g = fst ` set (al_graph g)"

definition al_closed :: "adjacency_list \<Rightarrow> bool" where
  "al_closed g = (\<forall>u. fst ` set (al_entry g u) \<subseteq> al_keys g)"

definition al_symmetric :: "adjacency_list \<Rightarrow> bool" where
  "al_symmetric g =
     (\<forall>u v. map snd (filter (\<lambda>e. fst e = v) (al_entry g u))
            = map snd (filter (\<lambda>e. fst e = u) (al_entry g v)))"

definition am_keys :: "adjacency_matrix \<Rightarrow> int set" where
  "am_keys g = fst ` set (am_vertices g)"

definition am_wf :: "adjacency_matrix \<Rightarrow> bool" where
  "am_wf g =
     (length (am_matrix g) = am_vertex_count g
      \<and> (\<forall>row \<in> set (am_matrix g). length row = am_vertex_count g)
      \<and> map snd (am_vertices g) = [0..<am_vertex_count g]
      \<and> distinct (map fst (am_vertices g))
      \<and> am_index_to_vertex g = map (\<lambda>(v, i). (i, v)) (am_vertices g))"

definition stores_agree :: "adjacency_matrix \<Rightarrow> adjacency_list \<Rightarrow> bool" where
  "stores_agree m l =
     (am_get_vertices m = al_get_vertices l \<and> am_directed m = al_directed l
      \<and> (\<forall>u v. am_has_edge m u v = al_has_edge l u v))"

definition fresh_step :: "adjacency_list \<Rightarrow> store_op \<Rightarrow> bool" where
  "fresh_step g x = (case x of AddEdge u v w \<Rightarrow> \<not> al_has_edge g u v | _ \<Rightarrow> True)"

fun fresh_edges :: "adjacency_list \<Rightarrow> store_op list \<Rightarrow> bool" where
  "fresh_edges g [] = True"
| "fresh_edges g (x # ops) = (fresh_step g x \<and> fresh_edges (al_apply g x) ops)"

definition al_functional :: "adjacency_list \<Rightarrow> bool" where
  "al_functional g = (\<forall>u v w. (v, w) \<in> set (al_entry g u) \<longrightarrow> al_get_weight g u v = Some w)"

definition al_inv :: "adjacency_list \<Rightarrow> bool" where
  "al_inv g = (al_closed g \<and> (\<not> al_directed g \<longrightarrow> al_symmetric g))"

definition weights_agree :: "adjacency_matrix \<Rightarrow> adjacency_list \<Rightarrow> bool" where
  "weights_agree m l = (\<forall>u v. am_get_weight m u v = al_get_weight l u v)"

subsection \<open>Graphs as relations\<close>

text \<open>
  \<open>edges g\<close> is the relation "\<open>v\<close> is enumerated by \<^verbatim>\<open>get_neighbors(u)\<close>", and \<open>is_walk g\<close>
  holds of a vertex list whose successive elements are joined by it. \<open>neighbors_closed g\<close>
  says that \<^verbatim>\<open>get_neighbors\<close> only names vertices of \<^verbatim>\<open>get_vertices()\<close>. \<open>bfs_inv\<close> is the
  loop invariant of \<^verbatim>\<open>bfs\<close>: the two dictionaries have the visited set as their keys,
  the queue holds visited vertices, each visited vertex other than the start has a
  visited parent one step closer to the start along an edge, every visited vertex can be
  reached from the start, and every visited vertex no longer in the queue has all its
  neighbours visited.
\<close>

definition neighbors_closed :: "graph \<Rightarrow> bool" where
  "neighbors_closed g = (\<forall>v. fst ` set (get_neighbors g v) \<subseteq> set (get_vertices g))"

definition edges :: "graph \<Rightarrow> (int \<times> int) set" where
  "edges g = {(u, v). v \<in> fst ` set (get_neighbors g u)}"

fun is_walk :: "graph \<Rightarrow> int list \<Rightarrow> bool" where
  "is_walk g [] = True"
| "is_walk g [x] = True"
| "is_walk g (x # y # rest) = (y \<in> fst ` set (get_neighbors g x) \<and> is_walk g (y # rest))"

definition bfs_inv :: "graph \<Rightarrow> int \<Rightarrow> bfs_state \<Rightarrow> bool" where
  "bfs_inv g s st =
     (case st of (D, P, Q, V) \<Rightarrow>
        dom D = V \<and> dom P = V \<and> set Q \<subseteq> V \<and> s \<in> V \<and> D s = Some 0 \<and> P s = Some None
        \<and> (\<forall>v \<in> V. v \<noteq> s \<longrightarrow>
              (\<exists>p dp. P v = Some (Some p) \<and> p \<in> V \<and> (p, v) \<in> edges g
                      \<and> D p = Some dp \<and> 0 \<le> dp \<and> D v = Some (dp + 1)))
        \<and> (\<forall>v \<in> V. (s, v) \<in> (edges g)\<^sup>*)
        \<and> (\<forall>v \<in> V. v \<notin> set Q \<longrightarrow> fst ` set (get_neighbors g v) \<subseteq> V))"

definition components_ops :: "store_op list" where
  "components_ops = [AddEdge 1 2 1, AddEdge 2 3 1, AddEdge 4 5 1, AddVertex 6]"

subsection \<open>Notions used to compare runs on two graphs\<close>

text \<open>
  \<open>relax_step\<close> is one iteration of the relaxation loop of \<^verbatim>\<open>dijkstra\<close>, on a state that
  may already be an error; \<open>single_weighted S\<close> says that \<open>S\<close> holds at most one weight
  per neighbour. \<open>least_steps E s v d\<close> says that \<open>d\<close> is the least number of \<open>E\<close>-steps
  from \<open>s\<close> to \<open>v\<close>, and \<open>bfs_level_inv\<close> is the part of the invariant of \<^verbatim>\<open>bfs\<close> about
  distances: recorded distances are least step counts, the queue is ordered by distance
  and spans at most two levels, and every vertex closer to the start than the head of
  the queue has left the queue. \<open>reach_from E V S\<close> is what can be reached from \<open>S\<close> along
  \<open>E\<close> without touching \<open>V\<close>.
\<close>

definition relax_step ::
  "real \<Rightarrow> int \<Rightarrow> int set \<Rightarrow> int \<times> real \<Rightarrow> error + dijkstra_state \<Rightarrow> error + dijkstra_state" where
  "relax_step cd c V e r =
     (case r of
        Inl err \<Rightarrow> Inl err
      | Inr st \<Rightarrow> dijkstra_relax cd c V [e] st)"

definition single_weighted :: "(int \<times> real) set \<Rightarrow> bool" where
  "single_weighted S = (\<forall>n w w'. (n, w) \<in> S \<and> (n, w') \<in> S \<longrightarrow> w = w')"

definition least_steps :: "(int \<times> int) set \<Rightarrow> int \<Rightarrow> int \<Rightarrow> nat \<Rightarrow> bool" where
  "least_steps E s v d = ((s, v) \<in> E ^^ d \<and> (\<forall>m<d. (s, v) \<notin> E ^^ m))"

definition bfs_level_inv :: "graph \<Rightarrow> int \<Rightarrow> bfs_state \<Rightarrow> bool" where
  "bfs_level_inv g s st =
     (case st of (D, P, Q, V) \<Rightarrow>
        (\<forall>v \<in> V. \<exists>d. D v = Some (int d) \<and> least_steps (edges g) s v d)
        \<and> sorted (map (\<lambda>q. the (D q)) Q)
        \<and> (\<forall>q \<in> set Q. the (D q) \<le> the (D (hd Q)) + 1)
        \<and> (\<forall>u m. (s, u) \<in> edges g ^^ m \<and> int m < the (D (hd Q)) \<longrightarrow> Q = [] \<or> (u \<in> V \<and> u \<notin> set Q)))"

definition avoiding :: "(int \<times> int) set \<Rightarrow> int set \<Rightarrow> (int \<times> int) set" where
  "avoiding E V = {(u, v). (u, v) \<in> E \<and> u \<notin> V \<and> v \<notin> V}"

definition reach_from :: "(int \<times> int) set \<Rightarrow> int set \<Rightarrow> int set \<Rightarrow> int set" where
  "reach_from E V S = {x. \<exists>y \<in> S. y \<notin> V \<and> (y, x) \<in> (avoiding E V)\<^sup>*}"

section \<open>Verified properties\<close>

subsection \<open>What each mutation does to the queries\<close>

lemma al_entry_outside: "u \<notin> al_keys g \<Longrightarrow> al_entry g u = []"
  by (simp add: al_entry_def al_keys_def map_of_eq_None_iff[THEN iffD2])

lemma al_add_vertex_entry [simp]: "al_entry (al_add_vertex g x) u = al_entry g u"
  by (auto simp: al_add_vertex_def al_entry_def update_conv' map_of_eq_None_iff[THEN iffD2])

lemma al_add_vertex_keys [simp]: "al_keys (al_add_vertex g x) = insert x (al_keys g)"
  by (auto simp: al_add_vertex_def al_keys_def dom_update)

lemma al_add_vertex_directed [simp]: "al_directed (al_add_vertex g x) = al_directed g"
  by (simp add: al_add_vertex_def)

lemma al_add_vertex_vertices:
  "al_get_vertices (al_add_vertex g x)
     = (if x \<in> set (al_get_vertices g) then al_get_vertices g else al_get_vertices g @ [x])"
  by (simp add: al_add_vertex_def al_get_vertices_def update_keys)

lemma al_append_entry [simp]:
  "al_entry (al_append g u e) x = (if x = u then al_entry g u @ [e] else al_entry g x)"
  by (simp add: al_append_def al_entry_def update_conv')

lemma al_append_keys [simp]: "al_keys (al_append g u e) = insert u (al_keys g)"
  by (auto simp: al_append_def al_keys_def dom_update)

lemma al_append_directed [simp]: "al_directed (al_append g u e) = al_directed g"
  by (simp add: al_append_def)

lemma al_append_vertices:
  "u \<in> al_keys g \<Longrightarrow> al_get_vertices (al_append g u e) = al_get_vertices g"
  by (simp add: al_append_def al_get_vertices_def update_keys al_keys_def)

lemma al_drop_entry [simp]:
  "al_entry (al_drop g u v) x
     = (if x = u then filter (\<lambda>e. fst e \<noteq> v) (al_entry g u) else al_entry g x)"
  by (simp add: al_drop_def al_entry_def update_conv' case_prod_unfold)

lemma al_drop_keys [simp]: "al_keys (al_drop g u v) = insert u (al_keys g)"
  by (auto simp: al_drop_def al_keys_def dom_update)

lemma al_drop_directed [simp]: "al_directed (al_drop g u e) = al_directed g"
  by (simp add: al_drop_def)

lemma al_drop_vertices:
  "u \<in> al_keys g \<Longrightarrow> al_get_vertices (al_drop g u e) = al_get_vertices g"
  by (simp add: al_drop_def al_get_vertices_def update_keys al_keys_def)

lemma al_vertices_keys: "set (al_get_vertices g) = al_keys g"
  by (simp add: al_get_vertices_def al_keys_def)

lemma al_add_edge_entry:
  "al_entry (al_add_edge g u v w) x
     = al_entry g x @ (if x = u then [(v, w)] else [])
         @ (if \<not> al_directed g \<and> x = v then [(u, w)] else [])"
  by (simp add: al_add_edge_def Let_def)

lemma al_add_edge_keys: "al_keys (al_add_edge g u v w) = insert u (insert v (al_keys g))"
  by (auto simp: al_add_edge_def Let_def)

lemma al_add_edge_directed [simp]: "al_directed (al_add_edge g u v w) = al_directed g"
  by (simp add: al_add_edge_def Let_def)

lemma al_add_edge_vertices:
  "al_get_vertices (al_add_edge g u v w)
     = al_get_vertices (al_add_vertex (al_add_vertex g u) v)"
  by (simp add: al_add_edge_def Let_def al_append_vertices)

lemma al_remove_edge_entry:
  "al_entry (al_remove_edge g u v) x
     = (if u \<notin> al_keys g then al_entry g x
        else filter (\<lambda>e. \<not> (x = u \<and> fst e = v)
                         \<and> \<not> (\<not> al_directed g \<and> v \<in> al_keys g \<and> x = v \<and> fst e = u))
               (al_entry g x))"
  by (auto simp: al_remove_edge_def Let_def al_keys_def[symmetric] intro: filter_cong)

lemma al_remove_edge_keys [simp]: "al_keys (al_remove_edge g u v) = al_keys g"
  by (auto simp: al_remove_edge_def Let_def al_keys_def[symmetric])

lemma al_remove_edge_directed [simp]: "al_directed (al_remove_edge g u v) = al_directed g"
  by (simp add: al_remove_edge_def Let_def)

lemma al_remove_edge_vertices [simp]:
  "al_get_vertices (al_remove_edge g u v) = al_get_vertices g"
  by (auto simp: al_remove_edge_def Let_def al_drop_vertices al_keys_def[symmetric])

lemma al_has_edge_entry: "al_has_edge g u v \<longleftrightarrow> v \<in> fst ` set (al_entry g u)"
  by (force simp: al_has_edge_def al_keys_def[symmetric] al_entry_outside list_ex_iff)

lemma al_get_weight_entry: "al_get_weight g u v = first_weight v (al_entry g u)"
  by (auto simp: al_get_weight_def al_keys_def[symmetric] al_entry_outside)

lemma al_get_neighbors_entry: "al_get_neighbors g u = al_entry g u"
  by (simp add: al_get_neighbors_def al_entry_def)

lemma al_run_snoc: "al_run d w (ops @ [x]) = al_apply (al_run d w ops) x"
  by (simp add: al_run_def)

lemma al_apply_directed [simp]: "al_directed (al_apply g x) = al_directed g"
  by (cases x) simp_all

lemma al_run_directed [simp]: "al_directed (al_run d w ops) = d"
  by (induction ops rule: rev_induct) (simp_all add: al_run_snoc, simp add: al_run_def al_init_def)

lemma al_init_entry [simp]: "al_entry (al_init d w) u = []"
  by (simp add: al_init_def al_entry_def)

lemma al_init_directed [simp]: "al_directed (al_init d w) = d"
  by (simp add: al_init_def)

lemma al_closed_apply: "al_closed g \<Longrightarrow> al_closed (al_apply g x)"
proof (cases x)
  case (AddVertex v)
  assume "al_closed g"
  with AddVertex show ?thesis by (auto simp: al_closed_def)
next
  case (AddEdge u v w)
  assume "al_closed g"
  with AddEdge show ?thesis
    by (auto simp: al_closed_def al_add_edge_entry al_add_edge_keys split: if_splits)
next
  case (RemoveEdge u v)
  assume "al_closed g"
  with RemoveEdge show ?thesis
    by (auto simp: al_closed_def al_remove_edge_entry split: if_splits)
qed

lemma al_closed_run: "al_closed (al_run d w ops)"
proof (induction ops rule: rev_induct)
  case Nil
  show ?case by (simp add: al_run_def al_closed_def)
next
  case (snoc x xs)
  then show ?case by (simp add: al_run_snoc al_closed_apply)
qed

lemma al_symmetric_apply:
  assumes "al_symmetric g" and "\<not> al_directed g"
  shows "al_symmetric (al_apply g x)"
proof (cases x)
  case (AddVertex v)
  with assms show ?thesis by (simp add: al_symmetric_def)
next
  case (AddEdge u v w)
  with assms show ?thesis by (auto simp: al_symmetric_def al_add_edge_entry)
next
  case (RemoveEdge u v)
  show ?thesis
    unfolding al_symmetric_def
  proof (intro allI)
    fix a b
    have out: "\<And>x. x \<notin> al_keys g \<Longrightarrow> al_entry g x = []" by (rule al_entry_outside)
    from assms(1) have sym: "\<And>a b. map snd (filter (\<lambda>e. fst e = b) (al_entry g a))
            = map snd (filter (\<lambda>e. fst e = a) (al_entry g b))"
      by (simp add: al_symmetric_def)
    have gone: "filter (\<lambda>e. fst e = u) (al_entry g v) = []" if "v \<notin> al_keys g"
      using out [OF that] by simp
    have gone': "filter (\<lambda>e. fst e = v) (al_entry g u) = []" if "v \<notin> al_keys g"
      using sym [of v u] gone [OF that] by simp
    show "map snd (filter (\<lambda>e. fst e = b) (al_entry (al_apply g x) a))
        = map snd (filter (\<lambda>e. fst e = a) (al_entry (al_apply g x) b))"
    proof (cases "u \<in> al_keys g")
      case False
      with RemoveEdge sym show ?thesis by (simp add: al_remove_edge_entry)
    next
      case True
      have l: "filter (\<lambda>e. fst e = b) (al_entry (al_apply g x) a)
          = (if (a = u \<and> b = v) \<or> (a = v \<and> b = u) then []
             else filter (\<lambda>e. fst e = b) (al_entry g a))" for a b
      proof (cases "v \<in> al_keys g")
        case True
        with \<open>u \<in> al_keys g\<close> RemoveEdge assms(2) show ?thesis
          by (auto simp: al_remove_edge_entry filter_empty_conv intro: filter_cong)
      next
        case False
        with \<open>u \<in> al_keys g\<close> RemoveEdge assms(2) gone gone' out show ?thesis
          by (auto simp: al_remove_edge_entry filter_empty_conv intro: filter_cong)
      qed
      show ?thesis unfolding l using sym [of b a] by auto
    qed
  qed
qed

lemma al_symmetric_run: "\<not> d \<Longrightarrow> al_symmetric (al_run d w ops)"
proof (induction ops rule: rev_induct)
  case Nil
  show ?case by (simp add: al_run_def al_symmetric_def)
next
  case (snoc x xs)
  then show ?case by (simp add: al_run_snoc al_symmetric_apply)
qed

lemma first_weight_filter:
  "first_weight v l = (case map snd (filter (\<lambda>e. fst e = v) l) of [] \<Rightarrow> None | x # _ \<Rightarrow> Some x)"
  by (induction l) auto

lemma has_entry_filter:
  "v \<in> fst ` set l \<longleftrightarrow> map snd (filter (\<lambda>e. fst e = v) l) \<noteq> []"
  by (induction l) auto

lemma al_undirected_symmetry:
  assumes "\<not> d"
  shows "al_has_edge (al_run d w ops) u v = al_has_edge (al_run d w ops) v u"
    and "al_get_weight (al_run d w ops) u v = al_get_weight (al_run d w ops) v u"
proof -
  from al_symmetric_run [OF assms] have
    "map snd (filter (\<lambda>e. fst e = v) (al_entry (al_run d w ops) u))
       = map snd (filter (\<lambda>e. fst e = u) (al_entry (al_run d w ops) v))"
    by (simp add: al_symmetric_def)
  then show "al_has_edge (al_run d w ops) u v = al_has_edge (al_run d w ops) v u"
    and "al_get_weight (al_run d w ops) u v = al_get_weight (al_run d w ops) v u"
    by (simp_all add: al_has_edge_entry al_get_weight_entry first_weight_filter has_entry_filter)
qed

lemma update_new_key: "k \<notin> fst ` set al \<Longrightarrow> AList.update k v al = al @ [(k, v)]"
  by (induction al) auto

lemma numbered_lookup:
  assumes "map snd al = [0..<n]" and "map_of al u = Some i"
  shows "i < n \<and> al ! i = (u, i)"
proof -
  from assms(2) have "(u, i) \<in> set al" by (rule map_of_SomeD)
  then obtain k where k: "k < length al" "al ! k = (u, i)" by (auto simp: in_set_conv_nth)
  from assms(1) have len: "length al = n" by (metis length_map length_upt minus_nat.diff_0)
  from k have "snd (al ! k) = map snd al ! k" by simp
  also have "\<dots> = k" using assms(1) k(1) len by simp
  finally have "i = k" using k(2) by simp
  with k len show ?thesis by simp
qed

lemma am_index_props:
  assumes "am_wf g" and "u \<in> am_keys g"
  shows "am_index g u < am_vertex_count g"
    and "am_vertices g ! am_index g u = (u, am_index g u)"
proof -
  from assms(2) obtain i where i: "map_of (am_vertices g) u = Some i"
    by (cases "map_of (am_vertices g) u") (auto simp: am_keys_def map_of_eq_None_iff)
  from assms(1) have "map snd (am_vertices g) = [0..<am_vertex_count g]" by (simp add: am_wf_def)
  from numbered_lookup [OF this i] i
  show "am_index g u < am_vertex_count g"
    and "am_vertices g ! am_index g u = (u, am_index g u)"
    by (simp_all add: am_index_def)
qed

lemma am_index_inj:
  assumes "am_wf g" and "u \<in> am_keys g" and "v \<in> am_keys g" and "am_index g u = am_index g v"
  shows "u = v"
proof -
  have "u = fst (am_vertices g ! am_index g u)"
    by (simp only: am_index_props(2) [OF assms(1,2)] fst_conv)
  also have "\<dots> = fst (am_vertices g ! am_index g v)" by (simp only: assms(4))
  also have "\<dots> = v" by (simp only: am_index_props(2) [OF assms(1,3)] fst_conv)
  finally show ?thesis .
qed

lemma am_get_weight_cell:
  "am_get_weight g u v
     = (if u \<in> am_keys g \<and> v \<in> am_keys g then am_cell g (am_index g u) (am_index g v) else None)"
  by (auto simp: am_get_weight_def am_has_edge_def am_keys_def)

lemma am_has_edge_weight: "am_has_edge g u v \<longleftrightarrow> am_get_weight g u v \<noteq> None"
  by (auto simp: am_get_weight_def am_has_edge_def)

lemma am_init_wf: "am_wf (am_init d w)"
  by (simp add: am_wf_def am_init_def)

lemma am_add_vertex_known: "x \<in> am_keys g \<Longrightarrow> am_add_vertex g x = g"
  by (simp add: am_add_vertex_def am_keys_def)

lemma am_add_vertex_new:
  assumes "am_wf g" and "x \<notin> am_keys g"
  shows "am_vertices (am_add_vertex g x) = am_vertices g @ [(x, am_vertex_count g)]"
    and "am_index_to_vertex (am_add_vertex g x) = am_index_to_vertex g @ [(am_vertex_count g, x)]"
    and "am_vertex_count (am_add_vertex g x) = Suc (am_vertex_count g)"
    and "am_matrix (am_add_vertex g x) =
           map (\<lambda>i. map (\<lambda>j. if i < am_vertex_count g \<and> j < am_vertex_count g
                               then am_cell g i j else None)
                         [0..<Suc (am_vertex_count g)])
               [0..<Suc (am_vertex_count g)]"
    and "am_directed (am_add_vertex g x) = am_directed g"
proof -
  from assms(1) have "fst ` set (am_index_to_vertex g) = snd ` set (am_vertices g)"
    by (force simp: am_wf_def)
  also have "\<dots> = set (map snd (am_vertices g))" by simp
  also have "\<dots> = {0..<am_vertex_count g}" using assms(1) by (simp add: am_wf_def)
  finally have "am_vertex_count g \<notin> fst ` set (am_index_to_vertex g)" by simp
  with assms(2) show
    "am_vertices (am_add_vertex g x) = am_vertices g @ [(x, am_vertex_count g)]"
    "am_index_to_vertex (am_add_vertex g x) = am_index_to_vertex g @ [(am_vertex_count g, x)]"
    "am_vertex_count (am_add_vertex g x) = Suc (am_vertex_count g)"
    "am_matrix (am_add_vertex g x) =
           map (\<lambda>i. map (\<lambda>j. if i < am_vertex_count g \<and> j < am_vertex_count g
                               then am_cell g i j else None)
                         [0..<Suc (am_vertex_count g)])
               [0..<Suc (am_vertex_count g)]"
    "am_directed (am_add_vertex g x) = am_directed g"
    by (simp_all add: am_add_vertex_def am_keys_def Let_def update_new_key)
qed

lemma am_add_vertex_wf:
  assumes "am_wf g"
  shows "am_wf (am_add_vertex g x)"
proof (cases "x \<in> am_keys g")
  case True
  with assms show ?thesis by (simp add: am_add_vertex_known)
next
  case False
  note new = am_add_vertex_new [OF assms False]
  from assms False show ?thesis
    unfolding am_wf_def new by (auto simp: am_keys_def)
qed

lemma am_add_vertex_keys: "am_wf g \<Longrightarrow> am_keys (am_add_vertex g x) = insert x (am_keys g)"
  by (cases "x \<in> am_keys g")
     (auto simp: am_add_vertex_known am_add_vertex_new(1) am_keys_def [of "am_add_vertex g x"]
           simp: am_keys_def [symmetric])

lemma am_add_vertex_directed [simp]: "am_directed (am_add_vertex g x) = am_directed g"
  by (simp add: am_add_vertex_def Let_def)

lemma am_add_vertex_vertices:
  "am_wf g \<Longrightarrow> am_get_vertices (am_add_vertex g x)
     = (if x \<in> set (am_get_vertices g) then am_get_vertices g else am_get_vertices g @ [x])"
  by (simp add: am_add_vertex_def am_get_vertices_def update_keys Let_def)

lemma am_add_vertex_weight:
  assumes "am_wf g"
  shows "am_get_weight (am_add_vertex g x) u v = am_get_weight g u v"
proof (cases "x \<in> am_keys g")
  case True
  then show ?thesis by (simp add: am_add_vertex_known)
next
  case False
  note new = am_add_vertex_new [OF assms False]
  let ?g = "am_add_vertex g x" and ?n = "am_vertex_count g"
  have keys: "am_keys ?g = insert x (am_keys g)" by (rule am_add_vertex_keys [OF assms])
  have idx_old: "am_index ?g a = am_index g a" if "a \<in> am_keys g" for a
  proof -
    from that have "map_of (am_vertices g) a \<noteq> None"
      by (simp add: am_keys_def map_of_eq_None_iff)
    then show ?thesis by (auto simp: am_index_def new(1) map_add_def split: option.splits)
  qed
  have idx_new: "am_index ?g x = ?n"
  proof -
    from False have "map_of (am_vertices g) x = None"
      by (simp add: am_keys_def map_of_eq_None_iff)
    then show ?thesis by (simp add: am_index_def new(1) map_add_def)
  qed
  have cell: "am_cell ?g i j = (if i < ?n \<and> j < ?n then am_cell g i j else None)"
    if "i \<le> ?n" "j \<le> ?n" for i j
    using that unfolding am_cell_def [of ?g] new(4) by (simp del: upt_Suc add: less_Suc_eq_le)
  show ?thesis
  proof (cases "u \<in> am_keys g \<and> v \<in> am_keys g")
    case True
    with am_index_props(1) [OF assms] have "am_index g u < ?n" "am_index g v < ?n" by auto
    with True show ?thesis by (simp add: am_get_weight_cell keys idx_old cell)
  next
    case no: False
    show ?thesis
    proof (cases "u \<in> am_keys ?g \<and> v \<in> am_keys ?g")
      case False
      with no keys show ?thesis by (auto simp: am_get_weight_cell)
    next
      case True
      with no keys have ux: "u = x \<or> v = x" by auto
      have "am_index ?g a \<le> ?n" if "a \<in> am_keys ?g" for a
      proof (cases "a = x")
        case True
        with idx_new show ?thesis by simp
      next
        case False
        with that keys have "a \<in> am_keys g" by simp
        with idx_old [OF this] am_index_props(1) [OF assms this] show ?thesis by simp
      qed
      with True have le: "am_index ?g u \<le> ?n \<and> am_index ?g v \<le> ?n" by simp
      from ux idx_new have nlt: "\<not> (am_index ?g u < ?n \<and> am_index ?g v < ?n)" by auto
      from True have "am_get_weight ?g u v = am_cell ?g (am_index ?g u) (am_index ?g v)"
        by (simp add: am_get_weight_cell)
      also from le have "\<dots> = (if am_index ?g u < ?n \<and> am_index ?g v < ?n
                          then am_cell g (am_index ?g u) (am_index ?g v) else None)"
        by (intro cell) auto
      also have "\<dots> = None" by (rule if_not_P [OF nlt])
      finally have lhs: "am_get_weight ?g u v = None" .
      from no have rhs: "am_get_weight g u v = None" by (auto simp: am_get_weight_cell)
      show ?thesis by (simp only: lhs rhs)
    qed
  qed
qed

lemma am_set_cell_fields [simp]:
  "am_vertices (am_set_cell g i j c) = am_vertices g"
  "am_index_to_vertex (am_set_cell g i j c) = am_index_to_vertex g"
  "am_vertex_count (am_set_cell g i j c) = am_vertex_count g"
  "am_directed (am_set_cell g i j c) = am_directed g"
  "am_keys (am_set_cell g i j c) = am_keys g"
  "am_index (am_set_cell g i j c) = am_index g"
  "am_get_vertices (am_set_cell g i j c) = am_get_vertices g"
  by (simp_all add: am_set_cell_def am_keys_def am_index_def fun_eq_iff am_get_vertices_def)

lemma am_set_cell_wf:
  assumes "am_wf g"
  shows "am_wf (am_set_cell g i j c)"
proof -
  let ?m = "am_matrix g" and ?n = "am_vertex_count g"
  from assms have len: "length ?m = ?n" and rows: "\<And>row. row \<in> set ?m \<Longrightarrow> length row = ?n"
    by (auto simp: am_wf_def)
  have m': "am_matrix (am_set_cell g i j c) = ?m[i := (?m ! i)[j := c]]"
    by (simp add: am_set_cell_def)
  have "length row = ?n" if "row \<in> set (?m[i := (?m ! i)[j := c]])" for row
  proof (cases "i < length ?m")
    case True
    from that have "row = (?m ! i)[j := c] \<or> row \<in> set ?m"
      using set_update_subset_insert [of ?m i "(?m ! i)[j := c]"] by auto
    with True rows show ?thesis by auto
  next
    case False
    then have "?m[i := (?m ! i)[j := c]] = ?m" by (simp add: list_update_beyond)
    with that rows show ?thesis by simp
  qed
  with assms len show ?thesis
    unfolding am_wf_def am_set_cell_fields m' by simp
qed

lemma am_set_cell_cell:
  assumes "am_wf g" and "i < am_vertex_count g" and "j < am_vertex_count g"
    and "a < am_vertex_count g" and "b < am_vertex_count g"
  shows "am_cell (am_set_cell g i j c) a b = (if a = i \<and> b = j then c else am_cell g a b)"
proof -
  from assms(1) have len: "length (am_matrix g) = am_vertex_count g"
    and rows: "\<And>k. k < am_vertex_count g \<Longrightarrow> length (am_matrix g ! k) = am_vertex_count g"
    by (auto simp: am_wf_def)
  show ?thesis
    using assms(2-) len rows [of i]
    by (auto simp: am_cell_def am_set_cell_def nth_list_update)
qed

lemma am_set_cell_weight:
  assumes "am_wf g" and "p \<in> am_keys g" and "q \<in> am_keys g"
  shows "am_get_weight (am_set_cell g (am_index g p) (am_index g q) c) u v
           = (if u = p \<and> v = q then c else am_get_weight g u v)"
proof (cases "u \<in> am_keys g \<and> v \<in> am_keys g")
  case False
  with assms show ?thesis by (auto simp: am_get_weight_cell)
next
  case True
  note lt = am_index_props(1) [OF assms(1)]
  have "am_cell (am_set_cell g (am_index g p) (am_index g q) c) (am_index g u) (am_index g v)
      = (if am_index g u = am_index g p \<and> am_index g v = am_index g q then c
         else am_cell g (am_index g u) (am_index g v))"
    using True assms by (intro am_set_cell_cell lt) auto
  moreover have "am_index g u = am_index g p \<longleftrightarrow> u = p"
    using am_index_inj [OF assms(1), of u p] True assms by auto
  moreover have "am_index g v = am_index g q \<longleftrightarrow> v = q"
    using am_index_inj [OF assms(1), of v q] True assms by auto
  ultimately show ?thesis using True by (simp add: am_get_weight_cell)
qed

lemma if_merge:
  "\<not> D \<Longrightarrow> (if A then X else if B then X else W) = (if B \<or> (\<not> D \<and> A) then X else W)"
  by simp

lemma am_add_edge_props:
  assumes "am_wf g"
  shows "am_wf (am_add_edge g u v w)"
    and "am_get_weight (am_add_edge g u v w) x y
           = (if (x = u \<and> y = v) \<or> (\<not> am_directed g \<and> x = v \<and> y = u) then Some w
              else am_get_weight g x y)"
    and "am_get_vertices (am_add_edge g u v w)
           = am_get_vertices (am_add_vertex (am_add_vertex g u) v)"
    and "am_directed (am_add_edge g u v w) = am_directed g"
proof -
  let ?g2 = "am_add_vertex (am_add_vertex g u) v"
  let ?g3 = "am_set_cell ?g2 (am_index ?g2 u) (am_index ?g2 v) (Some w)"
  have wf2: "am_wf ?g2" by (intro am_add_vertex_wf assms)
  have keys2: "u \<in> am_keys ?g2" "v \<in> am_keys ?g2"
    by (simp_all add: am_add_vertex_keys am_add_vertex_wf assms)
  have w2: "am_get_weight ?g2 x y = am_get_weight g x y" for x y
    by (simp add: am_add_vertex_weight am_add_vertex_wf assms)
  have wf3: "am_wf ?g3" by (intro am_set_cell_wf wf2)
  have w3: "am_get_weight ?g3 x y = (if x = u \<and> y = v then Some w else am_get_weight g x y)"
    for x y
    by (simp add: am_set_cell_weight [OF wf2 keys2] w2)
  have eq: "am_add_edge g u v w
      = (if \<not> am_directed g
         then am_set_cell ?g3 (am_index ?g3 v) (am_index ?g3 u) (Some w) else ?g3)"
    unfolding am_add_edge_def Let_def am_set_cell_fields am_add_vertex_directed ..
  show "am_wf (am_add_edge g u v w)"
    by (cases "am_directed g") (simp_all only: eq if_True if_False not_True_eq_False
        not_False_eq_True wf3 am_set_cell_wf)
  have keys3: "v \<in> am_keys ?g3" "u \<in> am_keys ?g3" using keys2 by simp_all
  show "am_get_weight (am_add_edge g u v w) x y
           = (if (x = u \<and> y = v) \<or> (\<not> am_directed g \<and> x = v \<and> y = u) then Some w
              else am_get_weight g x y)"
  proof (cases "am_directed g")
    case True
    then have "am_add_edge g u v w = ?g3" by (simp only: eq not_True_eq_False if_False)
    with True show ?thesis by (simp only: w3) simp
  next
    case False
    then have "am_add_edge g u v w
        = am_set_cell ?g3 (am_index ?g3 v) (am_index ?g3 u) (Some w)"
      by (simp only: eq not_False_eq_True if_True)
    then have "am_get_weight (am_add_edge g u v w) x y
        = (if x = v \<and> y = u then Some w else am_get_weight ?g3 x y)"
      by (simp only: am_set_cell_weight [OF wf3 keys3])
    also have "\<dots> = (if x = v \<and> y = u then Some w
                      else if x = u \<and> y = v then Some w else am_get_weight g x y)"
      by (simp only: w3)
    also have "\<dots> = (if (x = u \<and> y = v) \<or> (\<not> am_directed g \<and> x = v \<and> y = u) then Some w
                      else am_get_weight g x y)"
      by (rule if_merge [OF False])
    finally show ?thesis .
  qed
  show "am_get_vertices (am_add_edge g u v w) = am_get_vertices ?g2"
    by (cases "am_directed g") (simp_all only: eq if_True if_False not_True_eq_False
        not_False_eq_True am_set_cell_fields)
  show "am_directed (am_add_edge g u v w) = am_directed g"
    by (cases "am_directed g") (simp_all only: eq if_True if_False not_True_eq_False
        not_False_eq_True am_set_cell_fields am_add_vertex_directed)
qed

lemma am_remove_edge_props:
  assumes "am_wf g"
  shows "am_wf (am_remove_edge g u v)"
    and "am_get_weight (am_remove_edge g u v) x y
           = (if (x = u \<and> y = v) \<or> (\<not> am_directed g \<and> x = v \<and> y = u) then None
              else am_get_weight g x y)"
    and "am_get_vertices (am_remove_edge g u v) = am_get_vertices g"
    and "am_directed (am_remove_edge g u v) = am_directed g"
proof -
  let ?g1 = "am_set_cell g (am_index g u) (am_index g v) None"
  have eq: "am_remove_edge g u v
      = (if u \<notin> am_keys g \<or> v \<notin> am_keys g then g
         else if \<not> am_directed g
              then am_set_cell ?g1 (am_index ?g1 v) (am_index ?g1 u) None else ?g1)"
    unfolding am_remove_edge_def Let_def am_keys_def am_set_cell_fields ..
  have wf1: "am_wf ?g1" by (intro am_set_cell_wf assms)
  show "am_wf (am_remove_edge g u v)"
    unfolding eq using assms wf1 am_set_cell_wf [OF wf1] by (simp only: split: if_split) simp
  show "am_get_weight (am_remove_edge g u v) x y
           = (if (x = u \<and> y = v) \<or> (\<not> am_directed g \<and> x = v \<and> y = u) then None
              else am_get_weight g x y)"
  proof (cases "u \<notin> am_keys g \<or> v \<notin> am_keys g")
    case True
    then show ?thesis unfolding eq by (auto simp: am_get_weight_cell)
  next
    case False
    then have k: "u \<in> am_keys g" "v \<in> am_keys g" by auto
    have w1: "am_get_weight ?g1 x y = (if x = u \<and> y = v then None else am_get_weight g x y)"
      for x y by (simp add: am_set_cell_weight [OF assms k])
    have k1: "v \<in> am_keys ?g1" "u \<in> am_keys ?g1" using k by simp_all
    show ?thesis
    proof (cases "am_directed g")
      case True
      with k have "am_remove_edge g u v = ?g1"
        by (simp only: eq not_True_eq_False if_False simp_thms)
      with True show ?thesis by (simp only: w1) simp
    next
      case False
      with k have "am_remove_edge g u v
          = am_set_cell ?g1 (am_index ?g1 v) (am_index ?g1 u) None"
        by (simp only: eq not_False_eq_True if_True not_True_eq_False if_False simp_thms)
      then have "am_get_weight (am_remove_edge g u v) x y
          = (if x = v \<and> y = u then None else am_get_weight ?g1 x y)"
        by (simp only: am_set_cell_weight [OF wf1 k1])
      also have "\<dots> = (if x = v \<and> y = u then None
                        else if x = u \<and> y = v then None else am_get_weight g x y)"
        by (simp only: w1)
      also have "\<dots> = (if (x = u \<and> y = v) \<or> (\<not> am_directed g \<and> x = v \<and> y = u) then None
                        else am_get_weight g x y)"
        by (rule if_merge [OF False])
      finally show ?thesis .
    qed
  qed
  show "am_get_vertices (am_remove_edge g u v) = am_get_vertices g"
    unfolding eq by (simp only: am_set_cell_fields if_distrib [of am_get_vertices] if_cancel)
  show "am_directed (am_remove_edge g u v) = am_directed g"
    unfolding eq by (simp only: am_set_cell_fields if_distrib [of am_directed] if_cancel)
qed

lemma am_apply_wf: "am_wf g \<Longrightarrow> am_wf (am_apply g x)"
  by (cases x) (simp_all add: am_add_vertex_wf am_add_edge_props(1) am_remove_edge_props(1))

lemma am_apply_directed [simp]: "am_wf g \<Longrightarrow> am_directed (am_apply g x) = am_directed g"
  by (cases x) (simp_all add: am_add_edge_props(4) am_remove_edge_props(4))

lemma am_run_snoc: "am_run d w (ops @ [x]) = am_apply (am_run d w ops) x"
  by (simp add: am_run_def)

lemma am_run_wf: "am_wf (am_run d w ops)"
  by (induction ops rule: rev_induct) (simp_all add: am_run_snoc am_apply_wf, simp add: am_run_def am_init_wf)

lemma am_run_directed [simp]: "am_directed (am_run d w ops) = d"
  by (induction ops rule: rev_induct) (simp_all add: am_run_snoc am_run_wf, simp add: am_run_def am_init_def)

lemma am_undirected_symmetry:
  assumes "\<not> d"
  shows "am_get_weight (am_run d w ops) u v = am_get_weight (am_run d w ops) v u"
proof (induction ops arbitrary: u v rule: rev_induct)
  case Nil
  show ?case by (simp add: am_run_def am_init_def am_get_weight_cell am_keys_def)
next
  case (snoc x xs)
  show ?case
  proof (cases x)
    case (AddVertex a)
    with snoc show ?thesis by (simp add: am_run_snoc am_add_vertex_weight am_run_wf)
  next
    case (AddEdge a b c)
    with snoc assms show ?thesis
      by (auto simp: am_run_snoc am_add_edge_props(2) am_run_wf)
  next
    case (RemoveEdge a b)
    with snoc assms show ?thesis
      by (auto simp: am_run_snoc am_remove_edge_props(2) am_run_wf)
  qed
qed

lemma am_vertex_at:
  assumes "am_wf g" and "j < am_vertex_count g"
  shows "fst (am_vertices g ! j) \<in> am_keys g"
    and "am_index g (fst (am_vertices g ! j)) = j"
    and "map_of (am_index_to_vertex g) j = Some (fst (am_vertices g ! j))"
proof -
  let ?vs = "am_vertices g"
  from assms(1) have snd: "map snd ?vs = [0..<am_vertex_count g]"
    and dist: "distinct (map fst ?vs)"
    and itv: "am_index_to_vertex g = map (\<lambda>(v, i). (i, v)) ?vs"
    by (auto simp: am_wf_def)
  from snd have len: "length ?vs = am_vertex_count g"
    by (metis length_map length_upt minus_nat.diff_0)
  with assms(2) have j: "j < length ?vs" by simp
  have "snd (?vs ! j) = map snd ?vs ! j" using j by simp
  also have "\<dots> = j" using snd assms(2) by simp
  finally have at: "?vs ! j = (fst (?vs ! j), j)" by (metis prod.collapse)
  from j have mem: "?vs ! j \<in> set ?vs" by simp
  then show "fst (?vs ! j) \<in> am_keys g" by (auto simp: am_keys_def)
  from mem at have "(fst (?vs ! j), j) \<in> set ?vs" by simp
  with dist have "map_of ?vs (fst (?vs ! j)) = Some j" by (rule map_of_is_SomeI)
  then show "am_index g (fst (?vs ! j)) = j" by (simp add: am_index_def)
  have "map fst (am_index_to_vertex g) = map snd ?vs" unfolding itv by (induction ?vs) auto
  with snd have d2: "distinct (map fst (am_index_to_vertex g))" by simp
  from mem at have "(j, fst (?vs ! j)) \<in> set (am_index_to_vertex g)"
    unfolding itv by force
  with d2 show "map_of (am_index_to_vertex g) j = Some (fst (?vs ! j))" by (rule map_of_is_SomeI)
qed

lemma am_neighbors_weight:
  assumes "am_wf g"
  shows "set (am_get_neighbors g u) = {(v, w). am_get_weight g u v = Some w}"
proof (cases "u \<in> am_keys g")
  case False
  then show ?thesis by (auto simp: am_get_neighbors_def am_get_weight_cell am_keys_def)
next
  case True
  let ?n = "am_vertex_count g" and ?i = "am_index g u"
  have row: "set (am_row_entries g ?i)
      = {(fst (am_vertices g ! j), w) | j w. j < ?n \<and> am_cell g ?i j = Some w}"
    unfolding am_row_entries_def
    by (auto simp: am_vertex_at(3) [OF assms] split: option.splits)
  have "set (am_get_neighbors g u) = set (am_row_entries g ?i)"
    using True by (simp add: am_get_neighbors_def am_keys_def)
  also have "\<dots> = {(v, w). am_get_weight g u v = Some w}"
  proof (intro set_eqI iffI)
    fix e assume "e \<in> set (am_row_entries g ?i)"
    with row obtain j w where j: "j < ?n" "am_cell g ?i j = Some w"
      and e: "e = (fst (am_vertices g ! j), w)" by auto
    from am_vertex_at(1,2) [OF assms j(1)] j(2) True e
    show "e \<in> {(v, w). am_get_weight g u v = Some w}"
      by (simp add: am_get_weight_cell)
  next
    fix e assume "e \<in> {(v, w). am_get_weight g u v = Some w}"
    then obtain v w where e: "e = (v, w)" and w: "am_get_weight g u v = Some w" by auto
    from w have v: "v \<in> am_keys g" and c: "am_cell g ?i (am_index g v) = Some w"
      by (auto simp: am_get_weight_cell split: if_splits)
    from am_index_props [OF assms v] have "am_index g v < ?n"
      and "fst (am_vertices g ! am_index g v) = v" by simp_all
    with c e row show "e \<in> set (am_row_entries g ?i)" by force
  qed
  finally show ?thesis .
qed

lemma am_neighbors_has_edge:
  "am_wf g \<Longrightarrow> fst ` set (am_get_neighbors g u) = {v. am_has_edge g u v}"
  by (force simp: am_neighbors_weight am_has_edge_weight)

lemma al_neighbors_has_edge: "fst ` set (al_get_neighbors g u) = {v. al_has_edge g u v}"
  by (auto simp: al_get_neighbors_entry al_has_edge_entry)

lemma am_keys_vertices: "set (am_get_vertices g) = am_keys g"
  by (simp add: am_get_vertices_def am_keys_def)

lemma am_has_edge_keys: "am_has_edge g u v \<Longrightarrow> u \<in> am_keys g \<and> v \<in> am_keys g"
  by (auto simp: am_has_edge_def am_keys_def split: if_splits)

lemma al_add_edge_has:
  "al_has_edge (al_add_edge g u v w) x y
     \<longleftrightarrow> al_has_edge g x y \<or> (x = u \<and> y = v) \<or> (\<not> al_directed g \<and> x = v \<and> y = u)"
  unfolding al_has_edge_entry al_add_edge_entry by (cases "x = u"; cases "x = v") auto

lemma al_remove_edge_has:
  assumes "al_closed g"
  shows "al_has_edge (al_remove_edge g u v) x y
     \<longleftrightarrow> al_has_edge g x y \<and> \<not> (x = u \<and> y = v) \<and> \<not> (\<not> al_directed g \<and> x = v \<and> y = u)"
proof (cases "u \<in> al_keys g")
  case False
  then have "al_entry g u = []" by (rule al_entry_outside)
  then have 1: "\<not> al_has_edge g u v" by (simp add: al_has_edge_entry)
  from assms False have 2: "\<not> al_has_edge g v u"
    by (auto simp: al_has_edge_entry al_closed_def)
  from False have "al_has_edge (al_remove_edge g u v) x y = al_has_edge g x y"
    by (simp add: al_has_edge_entry al_remove_edge_entry)
  with 1 2 show ?thesis by blast
next
  case True
  have 3: "\<not> al_has_edge g v u" if "v \<notin> al_keys g"
    using al_entry_outside [OF that] by (simp add: al_has_edge_entry)
  from True have "al_has_edge (al_remove_edge g u v) x y
      \<longleftrightarrow> al_has_edge g x y \<and> \<not> (x = u \<and> y = v)
          \<and> \<not> (\<not> al_directed g \<and> v \<in> al_keys g \<and> x = v \<and> y = u)"
    unfolding al_has_edge_entry al_remove_edge_entry by force
  with 3 show ?thesis by blast
qed

lemma am_add_edge_has:
  "am_wf g \<Longrightarrow> am_has_edge (am_add_edge g u v w) x y
     \<longleftrightarrow> am_has_edge g x y \<or> (x = u \<and> y = v) \<or> (\<not> am_directed g \<and> x = v \<and> y = u)"
  by (simp only: am_has_edge_weight am_add_edge_props(2)) auto

lemma am_remove_edge_has:
  "am_wf g \<Longrightarrow> am_has_edge (am_remove_edge g u v) x y
     \<longleftrightarrow> am_has_edge g x y \<and> \<not> (x = u \<and> y = v) \<and> \<not> (\<not> am_directed g \<and> x = v \<and> y = u)"
  by (simp only: am_has_edge_weight am_remove_edge_props(2)) auto

lemma am_add_vertex_has: "am_wf g \<Longrightarrow> am_has_edge (am_add_vertex g a) x y = am_has_edge g x y"
  by (simp only: am_has_edge_weight am_add_vertex_weight)

lemma al_add_vertex_has: "al_has_edge (al_add_vertex g a) x y = al_has_edge g x y"
  by (simp add: al_has_edge_entry)

lemma add_vertex_agree:
  assumes "am_wf m" and "stores_agree m l"
  shows "stores_agree (am_add_vertex m a) (al_add_vertex l a)"
  using assms
  by (simp add: stores_agree_def am_add_vertex_vertices al_add_vertex_vertices
      am_add_vertex_has al_add_vertex_has)

lemma apply_agree:
  assumes "am_wf m" and "al_closed l" and "stores_agree m l"
  shows "stores_agree (am_apply m x) (al_apply l x)"
proof (cases x)
  case (AddVertex a)
  with add_vertex_agree [OF assms(1,3)] show ?thesis by simp
next
  case (AddEdge u v w)
  have 1: "stores_agree (am_add_vertex m u) (al_add_vertex l u)"
    by (rule add_vertex_agree [OF assms(1,3)])
  have 2: "stores_agree (am_add_vertex (am_add_vertex m u) v) (al_add_vertex (al_add_vertex l u) v)"
    by (rule add_vertex_agree [OF am_add_vertex_wf [OF assms(1)] 1])
  from assms(3) have "am_directed m = al_directed l" by (simp add: stores_agree_def)
  with 2 assms(3) AddEdge show ?thesis
    by (simp add: stores_agree_def am_add_edge_props(3,4) [OF assms(1)] al_add_edge_vertices
        am_add_edge_has [OF assms(1)] al_add_edge_has)
next
  case (RemoveEdge u v)
  with assms(3) show ?thesis
    by (simp add: stores_agree_def am_remove_edge_props(3,4) [OF assms(1)]
        am_remove_edge_has [OF assms(1)] al_remove_edge_has [OF assms(2)])
qed

lemma run_agree: "stores_agree (am_run d w ops) (al_run d w ops)"
proof (induction ops rule: rev_induct)
  case Nil
  show ?case
    by (simp add: stores_agree_def am_run_def al_run_def am_init_def al_init_def
        am_get_vertices_def al_get_vertices_def am_has_edge_def al_has_edge_def)
next
  case (snoc x xs)
  then show ?case
    by (simp add: am_run_snoc al_run_snoc apply_agree am_run_wf al_closed_run)
qed

lemma fresh_edges_snoc:
  "fresh_edges g (ops @ [x]) \<longleftrightarrow> fresh_edges g ops \<and> fresh_step (foldl al_apply g ops) x"
  by (induction ops arbitrary: g) auto

lemma first_weight_append:
  "first_weight y (l @ l') = (case first_weight y l of None \<Rightarrow> first_weight y l' | Some a \<Rightarrow> Some a)"
  by (induction l) auto

lemma first_weight_filter_fst:
  "first_weight a (filter (\<lambda>e. Q (fst e)) l) = (if Q a then first_weight a l else None)"
  by (induction l) auto

lemma first_weight_None: "first_weight v l = None \<longleftrightarrow> v \<notin> fst ` set l"
  by (induction l) (auto split: if_splits)

lemma first_weight_mem: "first_weight v l = Some w \<Longrightarrow> (v, w) \<in> set l"
  by (induction l) (auto split: if_splits)

lemma al_has_edge_weight: "al_has_edge g u v \<longleftrightarrow> al_get_weight g u v \<noteq> None"
  by (simp add: al_has_edge_entry al_get_weight_entry first_weight_None)

lemma al_symmetric_has: "al_symmetric g \<Longrightarrow> al_has_edge g u v = al_has_edge g v u"
  by (simp add: al_symmetric_def al_has_edge_entry has_entry_filter)

lemma al_add_vertex_weight: "al_get_weight (al_add_vertex g a) x y = al_get_weight g x y"
  by (simp add: al_get_weight_entry)

lemma al_add_edge_weight:
  assumes "\<not> al_has_edge g u v" and "\<not> al_directed g \<longrightarrow> \<not> al_has_edge g v u"
  shows "al_get_weight (al_add_edge g u v w) x y
           = (if (x = u \<and> y = v) \<or> (\<not> al_directed g \<and> x = v \<and> y = u) then Some w
              else al_get_weight g x y)"
proof -
  let ?extra = "(if x = u then [(v, w)] else []) @ (if \<not> al_directed g \<and> x = v then [(u, w)] else [])"
  have new: "first_weight y ?extra
      = (if (x = u \<and> y = v) \<or> (\<not> al_directed g \<and> x = v \<and> y = u) then Some w else None)"
    by (cases "x = u"; cases "x = v"; cases "al_directed g") auto
  have old: "al_get_weight g x y = None"
    if "(x = u \<and> y = v) \<or> (\<not> al_directed g \<and> x = v \<and> y = u)"
    using that assms by (auto simp: al_has_edge_weight)
  have "al_get_weight (al_add_edge g u v w) x y
      = (case al_get_weight g x y of None \<Rightarrow> first_weight y ?extra | Some a \<Rightarrow> Some a)"
    by (simp only: al_get_weight_entry al_add_edge_entry first_weight_append append_assoc)
  also have "\<dots> = (if (x = u \<and> y = v) \<or> (\<not> al_directed g \<and> x = v \<and> y = u) then Some w
                    else al_get_weight g x y)"
    using old unfolding new by (simp split: option.splits)
  finally show ?thesis .
qed

lemma al_remove_edge_weight:
  assumes "al_closed g"
  shows "al_get_weight (al_remove_edge g u v) x y
           = (if (x = u \<and> y = v) \<or> (\<not> al_directed g \<and> x = v \<and> y = u) then None
              else al_get_weight g x y)"
proof -
  from al_remove_edge_has [OF assms, of u v x y]
  have none: "al_get_weight (al_remove_edge g u v) x y = None"
    if "(x = u \<and> y = v) \<or> (\<not> al_directed g \<and> x = v \<and> y = u)"
    using that unfolding al_has_edge_weight by blast
  have same: "al_get_weight (al_remove_edge g u v) x y = al_get_weight g x y"
    if "\<not> ((x = u \<and> y = v) \<or> (\<not> al_directed g \<and> x = v \<and> y = u))"
  proof (cases "u \<in> al_keys g")
    case False
    then show ?thesis by (simp add: al_get_weight_entry al_remove_edge_entry)
  next
    case True
    let ?Q = "\<lambda>a. \<not> (x = u \<and> a = v) \<and> \<not> (\<not> al_directed g \<and> v \<in> al_keys g \<and> x = v \<and> a = u)"
    from True have "al_entry (al_remove_edge g u v) x = filter (\<lambda>e. ?Q (fst e)) (al_entry g x)"
      by (simp add: al_remove_edge_entry)
    then have "al_get_weight (al_remove_edge g u v) x y
        = (if ?Q y then al_get_weight g x y else None)"
      using first_weight_filter_fst [of y ?Q "al_entry g x"]
      by (simp only: al_get_weight_entry)
    moreover from that have "?Q y" by blast
    ultimately show ?thesis by simp
  qed
  show ?thesis
  proof (cases "(x = u \<and> y = v) \<or> (\<not> al_directed g \<and> x = v \<and> y = u)")
    case True
    from none [OF True] True show ?thesis by (simp only: if_True)
  next
    case False
    from same [OF False] False show ?thesis by (simp only: if_False)
  qed
qed

lemma al_functional_neighbors:
  "al_functional g \<Longrightarrow> set (al_get_neighbors g u) = {(v, w). al_get_weight g u v = Some w}"
  by (auto simp: al_functional_def al_get_neighbors_entry al_get_weight_entry
           dest: first_weight_mem)

lemma al_inv_apply: "al_inv g \<Longrightarrow> al_inv (al_apply g x)"
  by (simp add: al_inv_def al_closed_apply al_symmetric_apply)

lemma al_inv_init: "al_inv (al_init d w)"
  by (simp add: al_inv_def al_closed_def al_symmetric_def)

lemma al_functional_apply:
  assumes "al_inv g" and "al_functional g" and "fresh_step g x"
  shows "al_functional (al_apply g x)"
proof (cases x)
  case (AddVertex a)
  with assms(2) show ?thesis by (simp add: al_functional_def al_add_vertex_weight)
next
  case (AddEdge u v w)
  with assms(3) have f1: "\<not> al_has_edge g u v" by (simp add: fresh_step_def)
  with assms(1) have f2: "\<not> al_directed g \<longrightarrow> \<not> al_has_edge g v u"
    using al_symmetric_has [of g u v] by (auto simp: al_inv_def)
  note wt = al_add_edge_weight [OF f1 f2]
  show ?thesis unfolding al_functional_def
  proof (intro allI impI)
    fix a b c assume "(b, c) \<in> set (al_entry (al_apply g x) a)"
    with AddEdge have "(b, c) \<in> set (al_entry g a) \<or> (a = u \<and> (b, c) = (v, w))
        \<or> (\<not> al_directed g \<and> a = v \<and> (b, c) = (u, w))"
      by (auto simp: al_add_edge_entry split: if_splits)
    then show "al_get_weight (al_apply g x) a b = Some c"
    proof (elim disjE)
      assume old: "(b, c) \<in> set (al_entry g a)"
      with assms(2) have w: "al_get_weight g a b = Some c" by (simp add: al_functional_def)
      then have "al_has_edge g a b" by (simp add: al_has_edge_weight)
      with f1 f2 have "\<not> ((a = u \<and> b = v) \<or> (\<not> al_directed g \<and> a = v \<and> b = u))" by blast
      with w AddEdge show ?thesis by (simp only: al_apply.simps wt if_False)
    next
      assume "a = u \<and> (b, c) = (v, w)"
      with AddEdge show ?thesis by (simp add: wt)
    next
      assume "\<not> al_directed g \<and> a = v \<and> (b, c) = (u, w)"
      with AddEdge show ?thesis by (simp add: wt)
    qed
  qed
next
  case (RemoveEdge u v)
  from assms(1) have cl: "al_closed g" by (simp add: al_inv_def)
  note wt = al_remove_edge_weight [OF cl]
  show ?thesis unfolding al_functional_def
  proof (intro allI impI)
    fix a b c assume m: "(b, c) \<in> set (al_entry (al_apply g x) a)"
    then have "al_has_edge (al_apply g x) a b" by (force simp: al_has_edge_entry)
    with RemoveEdge have keep: "\<not> ((a = u \<and> b = v) \<or> (\<not> al_directed g \<and> a = v \<and> b = u))"
      by (simp add: al_remove_edge_has [OF cl])
    from m RemoveEdge have "(b, c) \<in> set (al_entry g a)"
      by (auto simp: al_remove_edge_entry split: if_splits)
    with assms(2) have "al_get_weight g a b = Some c" by (simp add: al_functional_def)
    with keep RemoveEdge show "al_get_weight (al_apply g x) a b = Some c"
      by (simp only: al_apply.simps wt if_False)
  qed
qed

lemma weights_agree_apply:
  assumes "am_wf m" and "al_inv l" and "am_directed m = al_directed l"
    and "weights_agree m l" and "fresh_step l x"
  shows "weights_agree (am_apply m x) (al_apply l x)"
proof (cases x)
  case (AddVertex a)
  with assms(1,4) show ?thesis
    by (simp add: weights_agree_def am_add_vertex_weight al_add_vertex_weight)
next
  case (AddEdge u v w)
  with assms(5) have f1: "\<not> al_has_edge l u v" by (simp add: fresh_step_def)
  with assms(2) have f2: "\<not> al_directed l \<longrightarrow> \<not> al_has_edge l v u"
    using al_symmetric_has [of l u v] by (auto simp: al_inv_def)
  from AddEdge assms(3,4) show ?thesis
    by (simp add: weights_agree_def am_add_edge_props(2) [OF assms(1)]
        al_add_edge_weight [OF f1 f2])
next
  case (RemoveEdge u v)
  from assms(2) have cl: "al_closed l" by (simp add: al_inv_def)
  from RemoveEdge assms(3,4) show ?thesis
    by (simp add: weights_agree_def am_remove_edge_props(2) [OF assms(1)]
        al_remove_edge_weight [OF cl])
qed

lemma al_inv_run: "al_inv (al_run d w ops)"
  by (induction ops rule: rev_induct)
     (simp_all add: al_run_snoc al_inv_apply, simp add: al_run_def al_inv_init)

lemma fresh_run:
  assumes "fresh_edges (al_init d w) ops"
  shows "weights_agree (am_run d w ops) (al_run d w ops) \<and> al_functional (al_run d w ops)"
  using assms
proof (induction ops rule: rev_induct)
  case Nil
  show ?case
    by (simp add: weights_agree_def al_functional_def am_run_def al_run_def am_init_def
        am_get_weight_def am_has_edge_def al_get_weight_entry)
next
  case (snoc x xs)
  from snoc.prems have f: "fresh_edges (al_init d w) xs" "fresh_step (al_run d w xs) x"
    by (simp_all add: fresh_edges_snoc al_run_def)
  from snoc.IH [OF f(1)] have ih: "weights_agree (am_run d w xs) (al_run d w xs)"
    "al_functional (al_run d w xs)" by simp_all
  have "weights_agree (am_run d w (xs @ [x])) (al_run d w (xs @ [x]))"
    unfolding am_run_snoc al_run_snoc
    by (rule weights_agree_apply [OF am_run_wf al_inv_run _ ih(1) f(2)]) simp
  moreover have "al_functional (al_run d w (xs @ [x]))"
    unfolding al_run_snoc by (rule al_functional_apply [OF al_inv_run ih(2) f(2)])
  ultimately show ?case by simp
qed

subsection \<open>Evaluating the stores\<close>

lemmas al_eval = al_run_def al_init_def al_add_edge_def al_add_vertex_def al_append_def
  al_entry_def al_remove_edge_def al_drop_def

lemmas am_eval = am_run_def am_init_def am_add_edge_def am_add_vertex_def am_set_cell_def
  am_cell_def am_index_def am_remove_edge_def Let_def upt_rec

lemmas query_eval = al_get_neighbors_def al_get_vertices_def am_get_neighbors_def
  am_get_vertices_def am_row_entries_def am_index_def am_cell_def upt_rec

lemma reference_list:
  "al_run False True reference_ops =
     \<lparr>al_directed = False, al_weighted = True,
      al_graph = [(1, [(2, 2), (4, 1)]), (2, [(1, 2), (3, 3), (5, 4)]), (3, [(2, 3)]),
                  (4, [(1, 1), (5, 1)]), (5, [(2, 4), (4, 1)])]\<rparr>"
  by (simp add: al_eval reference_ops_def)

lemma reference_matrix:
  "am_run False True reference_ops =
     \<lparr>am_directed = False, am_weighted = True,
      am_vertices = [(1, 0), (2, 1), (3, 2), (4, 3), (5, 4)],
      am_index_to_vertex = [(0, 1), (1, 2), (2, 3), (3, 4), (4, 5)],
      am_matrix = [[None, Some 2, None, Some 1, None],
                   [Some 2, None, Some 3, None, Some 4],
                   [None, Some 3, None, None, None],
                   [Some 1, None, None, None, Some 1],
                   [None, Some 4, None, Some 1, None]],
      am_vertex_count = 5\<rparr>"
  by (simp add: am_eval reference_ops_def)

lemma dag_list:
  "al_run True False dag_ops =
     \<lparr>al_directed = True, al_weighted = False,
      al_graph = [(1, [(2, 1), (3, 1)]), (2, [(4, 1)]), (3, [(4, 1)]), (4, [])]\<rparr>"
  by (simp add: al_eval dag_ops_def)

lemma dag_matrix:
  "am_run True False dag_ops =
     \<lparr>am_directed = True, am_weighted = False,
      am_vertices = [(1, 0), (2, 1), (3, 2), (4, 3)],
      am_index_to_vertex = [(0, 1), (1, 2), (2, 3), (3, 4)],
      am_matrix = [[None, Some 1, Some 1, None], [None, None, None, Some 1],
                   [None, None, None, Some 1], [None, None, None, None]],
      am_vertex_count = 4\<rparr>"
  by (simp add: am_eval dag_ops_def)

lemma cycle_list:
  "al_run True False cycle_ops =
     \<lparr>al_directed = True, al_weighted = False,
      al_graph = [(1, [(2, 1)]), (2, [(3, 1)]), (3, [(1, 1)])]\<rparr>"
  by (simp add: al_eval cycle_ops_def)

lemma cycle_matrix:
  "am_run True False cycle_ops =
     \<lparr>am_directed = True, am_weighted = False,
      am_vertices = [(1, 0), (2, 1), (3, 2)],
      am_index_to_vertex = [(0, 1), (1, 2), (2, 3)],
      am_matrix = [[None, Some 1, None], [None, None, Some 1], [Some 1, None, None]],
      am_vertex_count = 3\<rparr>"
  by (simp add: am_eval cycle_ops_def)

lemma four_plus: "4 + k = Suc (Suc (Suc (Suc k)))"
  by simp

subsection \<open>Edge overwrite (C2)\<close>

text \<open>
  C2, as stated, fails on the list store: after \<^verbatim>\<open>add_edge(1,2,3.0)\<close> and
  \<^verbatim>\<open>add_edge(1,2,7.0)\<close> the adjacency list of vertex 1 holds both entries and
  \<^verbatim>\<open>get_weight(1,2)\<close> still returns the first weight, 3.0.
\<close>

theorem edge_overwrite_counterexample:
  "\<not> (al_get_weight (al_run False True [AddEdge 1 2 3, AddEdge 1 2 7]) 1 2 = Some 7)
   \<and> al_get_neighbors (al_run False True [AddEdge 1 2 3, AddEdge 1 2 7]) 1 = [(2, 3), (2, 7)]"
  by (simp add: al_eval al_get_weight_def al_get_neighbors_def)

text \<open>
  C2 as amended: on a fresh store of either kind and with either setting of the flags,
  the second \<^verbatim>\<open>add_edge(1,2,7.0)\<close> leaves \<^verbatim>\<open>get_edge_count()\<close> at 1 and
  \<^verbatim>\<open>get_edges()\<close> lists the single edge (1,2). On the matrix store the weight is
  overwritten (\<^verbatim>\<open>get_weight(1,2)\<close> is 7.0, one neighbour entry). On the list store the
  second entry is appended after the first, \<^verbatim>\<open>get_weight(1,2)\<close> and \<^verbatim>\<open>get_edges()\<close>
  report the first weight 3.0.
\<close>

theorem edge_overwrite_amended:
  "am_get_edge_count (am_run d w [AddEdge 1 2 3]) = 1
   \<and> am_get_edge_count (am_run d w [AddEdge 1 2 3, AddEdge 1 2 7]) = 1
   \<and> am_get_edges (am_run d w [AddEdge 1 2 3, AddEdge 1 2 7]) = [(1, 2, 7)]
   \<and> am_get_weight (am_run d w [AddEdge 1 2 3, AddEdge 1 2 7]) 1 2 = Some 7
   \<and> am_get_neighbors (am_run d w [AddEdge 1 2 3, AddEdge 1 2 7]) 1 = [(2, 7)]
   \<and> al_get_edge_count (al_run d w [AddEdge 1 2 3]) = 1
   \<and> al_get_edge_count (al_run d w [AddEdge 1 2 3, AddEdge 1 2 7]) = 1
   \<and> al_get_edges (al_run d w [AddEdge 1 2 3, AddEdge 1 2 7]) = [(1, 2, 3)]
   \<and> al_get_weight (al_run d w [AddEdge 1 2 3, AddEdge 1 2 7]) 1 2 = Some 3
   \<and> al_get_neighbors (al_run d w [AddEdge 1 2 3, AddEdge 1 2 7]) 1
       = [(2, 3), (2, 7)]"
proof (cases d)
  case True
  then show ?thesis
    by (simp add: al_eval am_eval query_eval am_get_edge_count_def am_get_edges_def
        am_get_weight_def am_has_edge_def al_get_edge_count_def al_get_edges_def
        al_get_weight_def edge_key_def)
next
  case False
  then show ?thesis
    by (simp add: al_eval am_eval query_eval am_get_edge_count_def am_get_edges_def
        am_get_weight_def am_has_edge_def al_get_edge_count_def al_get_edges_def
        al_get_weight_def edge_key_def)
qed

theorem edge_overwrite_amended_witness:
  "am_get_weight (am_run False True [AddEdge 1 2 3, AddEdge 1 2 7]) 1 2 = Some 7
   \<and> al_get_weight (al_run False True [AddEdge 1 2 3, AddEdge 1 2 7]) 1 2 = Some 3
   \<and> al_get_edge_count (al_run False True [AddEdge 1 2 3, AddEdge 1 2 7]) = 1"
  using edge_overwrite_amended [of False True] by simp

subsection \<open>The two depth-first searches agree (C3)\<close>

lemma dfs_recursive_returns:
  "start \<notin> visited \<longrightarrow> card (set (get_vertices g) - visited) < depth \<longrightarrow>
     (\<exists>r v'. dfs_recursive_call depth g start visited = Some (r, v') \<and> visited \<subseteq> v')"
  "ns = [] \<or> card (set (get_vertices g) - visited) < depth \<longrightarrow>
     (\<exists>r v'. dfs_recursive_neighbors depth g ns visited result = Some (r, v') \<and> visited \<subseteq> v')"
proof (induction depth g start visited and depth g ns visited result
        rule: dfs_recursive_call_dfs_recursive_neighbors.induct)
  case (1 g start visited)
  then show ?case by simp
next
  case (2 depth g start visited)
  show ?case
  proof (intro impI)
    assume s: "start \<notin> visited" and c: "card (set (get_vertices g) - visited) < Suc depth"
    have "get_neighbors g start = [] \<or> card (set (get_vertices g) - insert start visited) < depth"
    proof (cases "start \<in> set (get_vertices g)")
      case True
      have "set (get_vertices g) - insert start visited \<subset> set (get_vertices g) - visited"
        using True s by auto
      then have "card (set (get_vertices g) - insert start visited)
                 < card (set (get_vertices g) - visited)"
        by (intro psubset_card_mono) auto
      with c show ?thesis by simp
    next
      case False
      then show ?thesis by (simp add: get_neighbors_outside)
    qed
    with 2 obtain r v' where
      "dfs_recursive_neighbors depth g (get_neighbors g start) (insert start visited) [start]
         = Some (r, v')"
      "insert start visited \<subseteq> v'" by blast
    then show "\<exists>r v'. dfs_recursive_call (Suc depth) g start visited = Some (r, v') \<and> visited \<subseteq> v'"
      by auto
  qed
next
  case (3 depth g visited result)
  then show ?case by simp
next
  case (4 depth g neighbor w rest visited result)
  show ?case
  proof (intro impI)
    assume "(neighbor, w) # rest = [] \<or> card (set (get_vertices g) - visited) < depth"
    then have c: "card (set (get_vertices g) - visited) < depth" by simp
    show "\<exists>r v'. dfs_recursive_neighbors depth g ((neighbor, w) # rest) visited result = Some (r, v')
            \<and> visited \<subseteq> v'"
    proof (cases "neighbor \<in> visited")
      case True
      with 4(3) c show ?thesis by auto
    next
      case False
      with 4(1) c obtain sub vis' where
        sub: "dfs_recursive_call depth g neighbor visited = Some (sub, vis')" "visited \<subseteq> vis'"
        by blast
      have "card (set (get_vertices g) - vis') \<le> card (set (get_vertices g) - visited)"
        using sub(2) by (intro card_mono) auto
      with c have "card (set (get_vertices g) - vis') < depth" by simp
      with 4(2) [OF False sub(1) refl] obtain r v' where
        "dfs_recursive_neighbors depth g rest vis' (result @ sub) = Some (r, v')" "vis' \<subseteq> v'"
        by blast
      with False sub show ?thesis by auto
    qed
  qed
qed

lemma dfs_recursive_mono:
  "dfs_recursive_call depth g start visited = Some (r, v') \<longrightarrow> visited \<subseteq> v'"
  "dfs_recursive_neighbors depth g ns visited result = Some (r, v') \<longrightarrow> visited \<subseteq> v'"
proof (induction depth g start visited and depth g ns visited result arbitrary: r v' and r v'
        rule: dfs_recursive_call_dfs_recursive_neighbors.induct)
  case (1 g start visited)
  then show ?case by simp
next
  case (2 depth g start visited)
  then show ?case by auto
next
  case (3 depth g visited result)
  then show ?case by simp
next
  case (4 depth g neighbor w rest visited result)
  then show ?case by (fastforce split: option.splits if_splits)
qed

text \<open>
  One recursive call from an unvisited vertex does to the visited set and the output what
  the loop does from the moment it pops that vertex until its stack is back to what lay
  underneath. For the inner loop the stack holds the neighbours that were unvisited when
  they were pushed (\<open>vis0\<close>), some of which have been visited since.
\<close>

lemma dfs_recursive_simulates:
  "dfs_recursive_call depth g start visited = Some (r, v') \<longrightarrow> start \<notin> visited \<longrightarrow>
     (\<forall>stack acc. dfs_iterative_loop g (start # stack) visited acc
                    = dfs_iterative_loop g stack v' (acc @ r))"
  "dfs_recursive_neighbors depth g ns visited result = Some (r, v') \<longrightarrow>
     (\<exists>r'. r = result @ r' \<and>
        (\<forall>stack acc vis0. vis0 \<subseteq> visited \<longrightarrow>
           dfs_iterative_loop g (filter (\<lambda>n. n \<notin> vis0) (map fst ns) @ stack) visited acc
             = dfs_iterative_loop g stack v' (acc @ r')))"
proof (induction depth g start visited and depth g ns visited result arbitrary: r v' and r v'
        rule: dfs_recursive_call_dfs_recursive_neighbors.induct)
  case (1 g start visited)
  then show ?case by simp
next
  case (2 depth g start visited)
  show ?case
  proof (intro impI allI)
    fix stack acc
    assume call: "dfs_recursive_call (Suc depth) g start visited = Some (r, v')"
      and s: "start \<notin> visited"
    from call have
      "dfs_recursive_neighbors depth g (get_neighbors g start) (insert start visited) [start]
         = Some (r, v')" by simp
    with 2 obtain r' where r': "r = [start] @ r'"
      and it: "\<And>stack acc vis0. vis0 \<subseteq> insert start visited \<Longrightarrow>
         dfs_iterative_loop g (filter (\<lambda>n. n \<notin> vis0) (map fst (get_neighbors g start)) @ stack)
            (insert start visited) acc = dfs_iterative_loop g stack v' (acc @ r')"
      by blast
    have "dfs_iterative_loop g (start # stack) visited acc
        = dfs_iterative_loop g
            (filter (\<lambda>n. n \<notin> insert start visited) (map fst (get_neighbors g start)) @ stack)
            (insert start visited) (acc @ [start])"
      using s by (simp add: push_unvisited_eq rev_map rev_filter)
    also have "\<dots> = dfs_iterative_loop g stack v' ((acc @ [start]) @ r')"
      by (rule it) simp
    finally show "dfs_iterative_loop g (start # stack) visited acc
        = dfs_iterative_loop g stack v' (acc @ r)"
      using r' by simp
  qed
next
  case (3 depth g visited result)
  then show ?case by simp
next
  case (4 depth g neighbor w rest visited result)
  show ?case
  proof (intro impI)
    assume nb: "dfs_recursive_neighbors depth g ((neighbor, w) # rest) visited result = Some (r, v')"
    show "\<exists>r'. r = result @ r' \<and>
        (\<forall>stack acc vis0. vis0 \<subseteq> visited \<longrightarrow>
           dfs_iterative_loop g (filter (\<lambda>n. n \<notin> vis0) (map fst ((neighbor, w) # rest)) @ stack)
               visited acc
             = dfs_iterative_loop g stack v' (acc @ r'))"
    proof (cases "neighbor \<in> visited")
      case True
      with nb have "dfs_recursive_neighbors depth g rest visited result = Some (r, v')" by simp
      with 4(3) True obtain r' where r': "r = result @ r'"
        and it: "\<And>stack acc vis0. vis0 \<subseteq> visited \<Longrightarrow>
           dfs_iterative_loop g (filter (\<lambda>n. n \<notin> vis0) (map fst rest) @ stack) visited acc
             = dfs_iterative_loop g stack v' (acc @ r')"
        by blast
      show ?thesis
      proof (intro exI conjI allI impI)
        show "r = result @ r'" by (rule r')
      next
        fix stack acc vis0 assume "vis0 \<subseteq> visited"
        then show "dfs_iterative_loop g
               (filter (\<lambda>n. n \<notin> vis0) (map fst ((neighbor, w) # rest)) @ stack) visited acc
             = dfs_iterative_loop g stack v' (acc @ r')"
          using True it [of vis0 stack acc] by simp
      qed
    next
      case False
      with nb obtain sub vis' where
        sub: "dfs_recursive_call depth g neighbor visited = Some (sub, vis')"
        and nb': "dfs_recursive_neighbors depth g rest vis' (result @ sub) = Some (r, v')"
        by (auto split: option.splits)
      from sub have mono: "visited \<subseteq> vis'" using dfs_recursive_mono(1) by blast
      from 4(1) [OF False] sub False have
        c: "\<And>stack acc. dfs_iterative_loop g (neighbor # stack) visited acc
                     = dfs_iterative_loop g stack vis' (acc @ sub)" by blast
      from 4(2) [OF False sub refl] nb' obtain r' where r': "r = (result @ sub) @ r'"
        and it: "\<And>stack acc vis0. vis0 \<subseteq> vis' \<Longrightarrow>
           dfs_iterative_loop g (filter (\<lambda>n. n \<notin> vis0) (map fst rest) @ stack) vis' acc
             = dfs_iterative_loop g stack v' (acc @ r')"
        by blast
      show ?thesis
      proof (intro exI conjI allI impI)
        show "r = result @ (sub @ r')" using r' by simp
      next
        fix stack acc vis0 assume v0: "vis0 \<subseteq> visited"
        with False have "neighbor \<notin> vis0" by auto
        then have "dfs_iterative_loop g
                (filter (\<lambda>n. n \<notin> vis0) (map fst ((neighbor, w) # rest)) @ stack) visited acc
           = dfs_iterative_loop g
                (neighbor # (filter (\<lambda>n. n \<notin> vis0) (map fst rest) @ stack)) visited acc"
          by simp
        also have "\<dots> = dfs_iterative_loop g
                (filter (\<lambda>n. n \<notin> vis0) (map fst rest) @ stack) vis' (acc @ sub)"
          by (rule c)
        also have "\<dots> = dfs_iterative_loop g stack v' ((acc @ sub) @ r')"
          using v0 mono by (intro it) auto
        finally show "dfs_iterative_loop g
                (filter (\<lambda>n. n \<notin> vis0) (map fst ((neighbor, w) # rest)) @ stack) visited acc
             = dfs_iterative_loop g stack v' (acc @ sub @ r')" by simp
      qed
    qed
  qed
qed

lemma dfs_recursive_sound:
  assumes "dfs_recursive depth g start = Some r"
  shows "r = dfs_iterative g start"
proof -
  from assms obtain v' where c: "dfs_recursive_call depth g start {} = Some (r, v')"
    by (auto simp: dfs_recursive_def)
  with dfs_recursive_simulates(1) [of depth g start "{}" r v'] have
    "dfs_iterative_loop g [start] {} [] = dfs_iterative_loop g [] v' ([] @ r)" by blast
  then show ?thesis by (simp add: dfs_iterative_def)
qed

text \<open>
  The recursion of \<^verbatim>\<open>dfs_recursive\<close> on the directed path 0\<rightarrow>1\<rightarrow>\<dots>\<rightarrow>n nests one call per
  vertex, so it needs room for \<open>n + 1\<close> nested calls.
\<close>

lemma path_ops_Suc: "path_ops (Suc n) = path_ops n @ [AddEdge (int n) (int n + 1) 1]"
  by (simp add: path_ops_def)

lemma path_entry:
  "al_entry (al_run True w (path_ops n)) u = (if 0 \<le> u \<and> u < int n then [(u + 1, 1)] else [])"
proof (induction n)
  case 0
  have "al_run True w (path_ops 0) = al_add_vertex (al_init True w) 0"
    by (simp add: path_ops_def al_run_def)
  then show ?case by simp
next
  case (Suc n)
  have "al_entry (al_run True w (path_ops (Suc n))) u
      = al_entry (al_run True w (path_ops n)) u @ (if u = int n then [(int n + 1, 1)] else [])"
    by (simp add: path_ops_Suc al_run_snoc al_add_edge_entry)
  with Suc show ?case by auto
qed

lemma path_neighbors:
  "al_get_neighbors (al_run True w (path_ops n)) u
     = (if 0 \<le> u \<and> u < int n then [(u + 1, 1)] else [])"
  by (simp add: al_get_neighbors_entry path_entry)

lemma path_vertices:
  "al_get_vertices (al_run True w (path_ops n)) = map int [0..<Suc n]"
proof (induction n)
  case 0
  show ?case by (simp add: path_ops_def al_run_def al_add_vertex_def al_init_def al_get_vertices_def)
next
  case (Suc n)
  let ?g = "al_run True w (path_ops n)"
  from Suc have v: "al_get_vertices ?g = map int [0..<Suc n]" .
  have "al_keys ?g = set (al_get_vertices ?g)" by (simp only: al_vertices_keys)
  also have "\<dots> = set (map int [0..<Suc n])" by (simp only: v)
  finally have k: "al_keys ?g = set (map int [0..<Suc n])" .
  have inside: "int n \<in> al_keys ?g" unfolding k by simp
  have outside: "int n + 1 \<notin> set (al_get_vertices ?g)" unfolding v by auto
  have "al_get_vertices (al_run True w (path_ops (Suc n)))
      = al_get_vertices (al_add_vertex (al_add_vertex ?g (int n)) (int n + 1))"
    by (simp add: path_ops_Suc al_run_snoc al_add_edge_vertices)
  also have "al_add_vertex ?g (int n) = ?g"
    using inside by (simp add: al_add_vertex_def al_keys_def)
  also have "al_get_vertices (al_add_vertex ?g (int n + 1)) = al_get_vertices ?g @ [int n + 1]"
    using outside by (simp add: al_add_vertex_vertices)
  finally show ?case using v by simp
qed

lemma path_overflow:
  assumes nb: "\<And>j. j < n \<Longrightarrow> get_neighbors g (int j) = [(int j + 1, 1)]"
  shows "i + depth \<le> n \<Longrightarrow> (\<forall>j. i < j \<longrightarrow> int j \<notin> visited)
         \<Longrightarrow> dfs_recursive_call depth g (int i) visited = None"
proof (induction depth arbitrary: i visited)
  case 0
  show ?case by simp
next
  case (Suc depth)
  from Suc.prems have i: "i < n" by simp
  have "dfs_recursive_call depth g (int (Suc i)) (insert (int i) visited) = None"
    using Suc.prems by (intro Suc.IH) auto
  moreover have "int i + 1 \<notin> insert (int i) visited"
    using Suc.prems(2) [rule_format, of "Suc i"] by (simp add: add.commute)
  ultimately show ?case using nb [OF i] by (simp add: add.commute)
qed

lemma path_iterative:
  assumes nb: "\<And>j. j < n \<Longrightarrow> get_neighbors g (int j) = [(int j + 1, 1)]"
    and last: "get_neighbors g (int n) = []"
  shows "k = n - i \<Longrightarrow> i \<le> n \<Longrightarrow> (\<forall>j. i \<le> j \<longrightarrow> int j \<notin> visited)
         \<Longrightarrow> dfs_iterative_loop g [int i] visited acc = acc @ map int [i..<Suc n]"
proof (induction k arbitrary: i visited acc)
  case 0
  then have "i = n" by simp
  with 0 last show ?case by simp
next
  case (Suc k)
  then have i: "i < n" by simp
  have a: "int i \<notin> visited" using Suc.prems(3) by simp
  have b: "int i + 1 \<notin> insert (int i) visited"
    using Suc.prems(3) [rule_format, of "Suc i"] by (simp add: add.commute)
  have "dfs_iterative_loop g [int i] visited acc
      = dfs_iterative_loop g [int (Suc i)] (insert (int i) visited) (acc @ [int i])"
    using a b nb [OF i] by (simp add: add.commute)
  also have "\<dots> = (acc @ [int i]) @ map int [Suc i..<Suc n]"
    using Suc.prems i by (intro Suc.IH) auto
  also have "\<dots> = acc @ map int [i..<Suc n]"
    using i by (simp add: upt_conv_Cons)
  finally show ?case .
qed

text \<open>
  C3, as stated for every graph, fails. On the directed path of 1500 vertices
  0\<rightarrow>1\<rightarrow>\<dots>\<rightarrow>1499 in the list store, with room for 1000 nested calls (the default
  recursion limit allows no more), \<^verbatim>\<open>dfs_recursive(g, 0)\<close> raises \<^verbatim>\<open>RecursionError\<close>
  while \<^verbatim>\<open>dfs_iterative(g, 0)\<close> returns the list 0, 1, \<dots>, 1499.
\<close>

theorem dfs_variants_agree_counterexample:
  "length (get_vertices (AdjList (al_run True False (path_ops 1499)))) = 1500
   \<and> dfs_recursive 1000 (AdjList (al_run True False (path_ops 1499))) 0 = None
   \<and> dfs_iterative (AdjList (al_run True False (path_ops 1499))) 0 = map int [0..<1500]"
proof (intro conjI)
  let ?g = "AdjList (al_run True False (path_ops 1499))"
  show "length (get_vertices ?g) = 1500" by (simp add: path_vertices)
  have "dfs_recursive_call 1000 ?g (int 0) {} = None"
    by (rule path_overflow [of 1499]) (simp_all add: path_neighbors)
  then show "dfs_recursive 1000 ?g 0 = None" by (simp add: dfs_recursive_def)
  have "dfs_iterative_loop ?g [int 0] {} [] = [] @ map int [0..<Suc 1499]"
    by (rule path_iterative [of 1499 _ 1499]) (simp_all add: path_neighbors)
  then show "dfs_iterative ?g 0 = map int [0..<1500]" by (simp add: dfs_iterative_def)
qed

text \<open>
  C3, amended: for every graph \<open>g\<close>, every start vertex and every number \<open>depth\<close> of
  nested calls that the recursion limit leaves room for, \<^verbatim>\<open>dfs_recursive\<close> either
  raises \<^verbatim>\<open>RecursionError\<close> or returns exactly the list \<^verbatim>\<open>dfs_iterative\<close> returns; and
  it does return that list as soon as \<open>depth\<close> exceeds the number of vertices of the
  graph.
\<close>

theorem dfs_variants_agree_amended:
  "(dfs_recursive depth g start = None \<or> dfs_recursive depth g start = Some (dfs_iterative g start))
   \<and> (length (get_vertices g) < depth \<longrightarrow> dfs_recursive depth g start = Some (dfs_iterative g start))"
proof (intro conjI impI)
  show "dfs_recursive depth g start = None \<or> dfs_recursive depth g start = Some (dfs_iterative g start)"
    using dfs_recursive_sound [of depth g start] by (cases "dfs_recursive depth g start") auto
  assume d: "length (get_vertices g) < depth"
  have "card (set (get_vertices g) - {}) \<le> length (get_vertices g)"
    by (simp add: card_length)
  with d have "card (set (get_vertices g) - {}) < depth" by simp
  with dfs_recursive_returns(1) [of start "{}" g depth] obtain r v' where
    c: "dfs_recursive_call depth g start {} = Some (r, v')" by auto
  then have "dfs_recursive depth g start = Some r" by (simp add: dfs_recursive_def)
  with dfs_recursive_sound [OF this] show "dfs_recursive depth g start = Some (dfs_iterative g start)"
    by simp
qed

theorem dfs_variants_agree_amended_witness:
  "length (get_vertices (AdjList (al_run False True reference_ops))) < 6
   \<and> dfs_recursive 6 (AdjList (al_run False True reference_ops)) 1 = Some [1, 2, 3, 5, 4]
   \<and> dfs_iterative (AdjList (al_run False True reference_ops)) 1 = [1, 2, 3, 5, 4]"
proof -
  have len: "length (get_vertices (AdjList (al_run False True reference_ops))) < 6"
    unfolding reference_list by (simp add: query_eval)
  have it: "dfs_iterative (AdjList (al_run False True reference_ops)) 1 = [1, 2, 3, 5, 4]"
    unfolding reference_list by (simp add: dfs_iterative_def query_eval)
  from dfs_variants_agree_amended [of 6 "AdjList (al_run False True reference_ops)" 1] len it
  show ?thesis by simp
qed

subsection \<open>Dijkstra on the reference graph (C4)\<close>

text \<open>
  C4: on the weighted undirected graph with edges (1,2,2.0), (2,3,3.0), (1,4,1.0),
  (2,5,4.0), (4,5,1.0), built in either store, \<^verbatim>\<open>dijkstra(g,1)\<close> returns the distances
  \<open>{1:0, 4:1, 5:2, 2:2, 3:5}\<close> (with the parents \<open>{1:None, 2:1, 3:2, 4:1, 5:4}\<close>) and
  \<^verbatim>\<open>dijkstra_path(g,1,5)\<close> returns \<open>([1,4,5], 2.0)\<close>.
\<close>

theorem dijkstra_reference_graph:
  "dijkstra (AdjList (al_run False True reference_ops)) 1
     = Inr ([1 \<mapsto> Finite 0, 4 \<mapsto> Finite 1, 5 \<mapsto> Finite 2, 2 \<mapsto> Finite 2, 3 \<mapsto> Finite 5],
            [1 \<mapsto> None, 2 \<mapsto> Some 1, 3 \<mapsto> Some 2, 4 \<mapsto> Some 1, 5 \<mapsto> Some 4])
   \<and> dijkstra (Matrix (am_run False True reference_ops)) 1
     = Inr ([1 \<mapsto> Finite 0, 4 \<mapsto> Finite 1, 5 \<mapsto> Finite 2, 2 \<mapsto> Finite 2, 3 \<mapsto> Finite 5],
            [1 \<mapsto> None, 2 \<mapsto> Some 1, 3 \<mapsto> Some 2, 4 \<mapsto> Some 1, 5 \<mapsto> Some 4])
   \<and> dijkstra_path (AdjList (al_run False True reference_ops)) 1 5
     = Some (Inr (Some ([1, 4, 5], Finite 2)))
   \<and> dijkstra_path (Matrix (am_run False True reference_ops)) 1 5
     = Some (Inr (Some ([1, 4, 5], Finite 2)))"
proof (intro conjI)
  show "dijkstra (AdjList (al_run False True reference_ops)) 1
     = Inr ([1 \<mapsto> Finite 0, 4 \<mapsto> Finite 1, 5 \<mapsto> Finite 2, 2 \<mapsto> Finite 2, 3 \<mapsto> Finite 5],
            [1 \<mapsto> None, 2 \<mapsto> Some 1, 3 \<mapsto> Some 2, 4 \<mapsto> Some 1, 5 \<mapsto> Some 4])"
    unfolding reference_list dijkstra_def by (simp add: query_eval fun_eq_iff)
  show "dijkstra (Matrix (am_run False True reference_ops)) 1
     = Inr ([1 \<mapsto> Finite 0, 4 \<mapsto> Finite 1, 5 \<mapsto> Finite 2, 2 \<mapsto> Finite 2, 3 \<mapsto> Finite 5],
            [1 \<mapsto> None, 2 \<mapsto> Some 1, 3 \<mapsto> Some 2, 4 \<mapsto> Some 1, 5 \<mapsto> Some 4])"
    unfolding reference_matrix dijkstra_def by (simp add: query_eval fun_eq_iff)
  show "dijkstra_path (AdjList (al_run False True reference_ops)) 1 5
     = Some (Inr (Some ([1, 4, 5], Finite 2)))"
    unfolding reference_list dijkstra_def dijkstra_path_def
    by (simp add: query_eval walk_parents.simps)
  show "dijkstra_path (Matrix (am_run False True reference_ops)) 1 5
     = Some (Inr (Some ([1, 4, 5], Finite 2)))"
    unfolding reference_matrix dijkstra_def dijkstra_path_def
    by (simp add: query_eval walk_parents.simps)
qed

subsection \<open>Topological sort on the two example graphs (C5)\<close>

text \<open>
  C5: on the directed graph with edges 1\<rightarrow>2, 1\<rightarrow>3, 2\<rightarrow>4, 3\<rightarrow>4, built in either store,
  \<^verbatim>\<open>topological_sort\<close> returns \<open>[1,2,3,4]\<close> and \<^verbatim>\<open>topological_sort_dfs\<close> returns
  \<open>[1,3,2,4]\<close> (for every bound of at least 4 on its nested calls); both are
  permutations of {1,2,3,4} in which 1 precedes 2 and 3, and 2 and 3 precede 4. On the
  directed graph with edges 1\<rightarrow>2, 2\<rightarrow>3, 3\<rightarrow>1 both return \<^verbatim>\<open>None\<close>.
\<close>

theorem topological_sort_examples:
  "topological_sort (AdjList (al_run True False dag_ops)) = Inr (Some [1, 2, 3, 4])
   \<and> topological_sort (Matrix (am_run True False dag_ops)) = Inr (Some [1, 2, 3, 4])
   \<and> topological_sort_dfs (4 + k) (AdjList (al_run True False dag_ops))
       = Some (Inr (Some [1, 3, 2, 4]))
   \<and> topological_sort_dfs (4 + k) (Matrix (am_run True False dag_ops))
       = Some (Inr (Some [1, 3, 2, 4]))
   \<and> dag_order [1, 2, 3, 4] \<and> dag_order [1, 3, 2, 4]
   \<and> topological_sort (AdjList (al_run True False cycle_ops)) = Inr None
   \<and> topological_sort (Matrix (am_run True False cycle_ops)) = Inr None
   \<and> topological_sort_dfs (4 + k) (AdjList (al_run True False cycle_ops)) = Some (Inr None)
   \<and> topological_sort_dfs (4 + k) (Matrix (am_run True False cycle_ops)) = Some (Inr None)"
proof (intro conjI)
  show "topological_sort (AdjList (al_run True False dag_ops)) = Inr (Some [1, 2, 3, 4])"
    unfolding dag_list by (simp add: topological_sort_def initial_in_degree_def query_eval)
  show "topological_sort (Matrix (am_run True False dag_ops)) = Inr (Some [1, 2, 3, 4])"
    unfolding dag_matrix by (simp add: topological_sort_def initial_in_degree_def query_eval)
  show "topological_sort_dfs (4 + k) (AdjList (al_run True False dag_ops))
       = Some (Inr (Some [1, 3, 2, 4]))"
    unfolding dag_list four_plus by (simp add: topological_sort_dfs_def query_eval)
  show "topological_sort_dfs (4 + k) (Matrix (am_run True False dag_ops))
       = Some (Inr (Some [1, 3, 2, 4]))"
    unfolding dag_matrix four_plus by (simp add: topological_sort_dfs_def query_eval)
  show "dag_order [1, 2, 3, 4]" by (auto simp: dag_order_def precedes_def)
  show "dag_order [1, 3, 2, 4]" by (auto simp: dag_order_def precedes_def)
  show "topological_sort (AdjList (al_run True False cycle_ops)) = Inr None"
    unfolding cycle_list by (simp add: topological_sort_def initial_in_degree_def query_eval)
  show "topological_sort (Matrix (am_run True False cycle_ops)) = Inr None"
    unfolding cycle_matrix by (simp add: topological_sort_def initial_in_degree_def query_eval)
  show "topological_sort_dfs (4 + k) (AdjList (al_run True False cycle_ops)) = Some (Inr None)"
    unfolding cycle_list four_plus by (simp add: topological_sort_dfs_def query_eval)
  show "topological_sort_dfs (4 + k) (Matrix (am_run True False cycle_ops)) = Some (Inr None)"
    unfolding cycle_matrix four_plus by (simp add: topological_sort_dfs_def query_eval)
qed

theorem topological_sort_examples_witness:
  "topological_sort_dfs 4 (Matrix (am_run True False dag_ops)) = Some (Inr (Some [1, 3, 2, 4]))
   \<and> topological_sort_dfs 4 (AdjList (al_run True False cycle_ops)) = Some (Inr None)"
  using topological_sort_examples [of 0] by simp

subsection \<open>Topological sort rejects undirected graphs (C6)\<close>

text \<open>
  C6: on a graph whose \<^verbatim>\<open>directed\<close> flag is false both \<^verbatim>\<open>topological_sort\<close> and
  \<^verbatim>\<open>topological_sort_dfs\<close> raise \<^verbatim>\<open>ValueError\<close>, whatever the graph holds; neither
  returns an ordering or \<^verbatim>\<open>None\<close>.
\<close>

theorem topological_sort_undirected:
  assumes "\<not> directed g"
  shows "topological_sort g = Inl ValueError
         \<and> topological_sort_dfs depth g = Some (Inl ValueError)"
  using assms by (simp add: topological_sort_def topological_sort_dfs_def)

theorem topological_sort_undirected_witness:
  "\<not> directed (AdjList (al_run False True reference_ops))
   \<and> topological_sort (AdjList (al_run False True reference_ops)) = Inl ValueError
   \<and> topological_sort_dfs 10 (AdjList (al_run False True reference_ops)) = Some (Inl ValueError)
   \<and> \<not> directed (Matrix (am_run False True reference_ops))
   \<and> topological_sort (Matrix (am_run False True reference_ops)) = Inl ValueError
   \<and> topological_sort_dfs 10 (Matrix (am_run False True reference_ops)) = Some (Inl ValueError)"
proof -
  have l: "\<not> directed (AdjList (al_run False True reference_ops))"
    unfolding reference_list by simp
  have m: "\<not> directed (Matrix (am_run False True reference_ops))"
    unfolding reference_matrix by simp
  from topological_sort_undirected [OF l, of 10] topological_sort_undirected [OF m, of 10] l m
  show ?thesis by simp
qed

subsection \<open>Undirected stores stay symmetric (C7)\<close>

text \<open>
  C7: on a store of either kind constructed with \<^verbatim>\<open>directed == False\<close>, after any sequence
  of \<^verbatim>\<open>add_vertex\<close>, \<^verbatim>\<open>add_edge\<close> and \<^verbatim>\<open>remove_edge\<close> calls, \<^verbatim>\<open>has_edge(u,v)\<close> equals
  \<^verbatim>\<open>has_edge(v,u)\<close> and \<^verbatim>\<open>get_weight(u,v)\<close> equals \<^verbatim>\<open>get_weight(v,u)\<close> for all \<open>u\<close>,
  \<open>v\<close> (both are \<^verbatim>\<open>None\<close> when there is no edge).
\<close>

theorem undirected_symmetry:
  "am_has_edge (am_run False w ops) u v = am_has_edge (am_run False w ops) v u
   \<and> am_get_weight (am_run False w ops) u v = am_get_weight (am_run False w ops) v u
   \<and> al_has_edge (al_run False w ops) u v = al_has_edge (al_run False w ops) v u
   \<and> al_get_weight (al_run False w ops) u v = al_get_weight (al_run False w ops) v u"
proof -
  have m: "am_get_weight (am_run False w ops) u v = am_get_weight (am_run False w ops) v u"
    by (rule am_undirected_symmetry) simp
  then have "am_has_edge (am_run False w ops) u v = am_has_edge (am_run False w ops) v u"
    by (simp only: am_has_edge_weight)
  with m al_undirected_symmetry [of False w ops u v] show ?thesis by simp
qed

theorem undirected_symmetry_witness:
  "am_get_weight (am_run False True [AddEdge 1 2 3, AddEdge 2 1 7, AddEdge 2 3 4, RemoveEdge 3 2]) 2 1
     = Some 7
   \<and> am_get_weight (am_run False True [AddEdge 1 2 3, AddEdge 2 1 7, AddEdge 2 3 4, RemoveEdge 3 2]) 1 2
     = Some 7
   \<and> al_get_weight (al_run False True [AddEdge 1 2 3, AddEdge 2 1 7, AddEdge 2 3 4, RemoveEdge 3 2]) 2 1
     = Some 3
   \<and> al_get_weight (al_run False True [AddEdge 1 2 3, AddEdge 2 1 7, AddEdge 2 3 4, RemoveEdge 3 2]) 1 2
     = Some 3
   \<and> \<not> am_has_edge (am_run False True [AddEdge 1 2 3, AddEdge 2 1 7, AddEdge 2 3 4, RemoveEdge 3 2]) 2 3
   \<and> \<not> al_has_edge (al_run False True [AddEdge 1 2 3, AddEdge 2 1 7, AddEdge 2 3 4, RemoveEdge 3 2]) 2 3"
proof -
  let ?ops = "[AddEdge 1 2 3, AddEdge 2 1 7, AddEdge 2 3 4, RemoveEdge 3 2]"
  have 1: "am_get_weight (am_run False True ?ops) 1 2 = Some 7"
    by (simp add: am_eval am_get_weight_def am_has_edge_def)
  have 2: "al_get_weight (al_run False True ?ops) 1 2 = Some 3"
    by (simp add: al_eval al_get_weight_def)
  have 3: "\<not> am_has_edge (am_run False True ?ops) 3 2"
    by (simp add: am_eval am_has_edge_def)
  have 4: "\<not> al_has_edge (al_run False True ?ops) 3 2"
    by (simp add: al_eval al_has_edge_def)
  from undirected_symmetry [of True ?ops 1 2] undirected_symmetry [of True ?ops 3 2] 1 2 3 4
  show ?thesis by simp
qed

subsection \<open>Lemmas about the algorithms\<close>

lemma built_closed:
  "neighbors_closed (Matrix (am_run d w ops))" "neighbors_closed (AdjList (al_run d w ops))"
proof -
  show "neighbors_closed (Matrix (am_run d w ops))"
    unfolding neighbors_closed_def
    by (auto simp: am_neighbors_has_edge [OF am_run_wf] am_keys_vertices dest: am_has_edge_keys)
  from al_closed_run [of d w ops] show "neighbors_closed (AdjList (al_run d w ops))"
    unfolding neighbors_closed_def al_closed_def
    by (simp add: al_get_neighbors_entry al_vertices_keys)
qed

lemma dijkstra_relax_dom:
  "dijkstra_relax cd c V ns (D, P, pq) = Inr (D', P', pq') \<Longrightarrow> dom D' = dom D"
proof (induction ns arbitrary: D P pq)
  case Nil
  then show ?case by simp
next
  case (Cons a ns)
  obtain n w where a: "a = (n, w)" by (cases a)
  show ?case
  proof (cases "n \<in> V")
    case True
    with Cons a show ?thesis by simp
  next
    case False
    with Cons.prems a obtain old where old: "D n = Some old"
      by (auto split: option.splits)
    show ?thesis
    proof (cases "float_less (cd + w) old")
      case True
      with Cons.prems a False old have
        "dijkstra_relax cd c V ns (D(n \<mapsto> Finite (cd + w)), P(n \<mapsto> Some c), heappush pq (cd + w, n))
           = Inr (D', P', pq')" by simp
      from Cons.IH [OF this] have "dom D' = dom (D(n \<mapsto> Finite (cd + w)))" .
      also from old have "\<dots> = dom D" by auto
      finally show ?thesis .
    next
      case no: False
      with Cons.prems a False old have "dijkstra_relax cd c V ns (D, P, pq) = Inr (D', P', pq')"
        by simp
      from Cons.IH [OF this] show ?thesis .
    qed
  qed
qed

lemma dijkstra_relax_error:
  "dijkstra_relax cd c V ns st = Inl e \<Longrightarrow> e = KeyError"
proof (induction ns arbitrary: st)
  case Nil
  then show ?case by simp
next
  case (Cons a ns)
  obtain n w where a: "a = (n, w)" by (cases a)
  obtain D P pq where st: "st = (D, P, pq)" by (cases st)
  from Cons.prems show ?case unfolding a st
    by (auto split: if_splits option.splits dest: Cons.IH)
qed

lemma dijkstra_relax_returns:
  "fst ` set ns \<subseteq> dom D \<Longrightarrow> \<exists>st. dijkstra_relax cd c V ns (D, P, pq) = Inr st"
proof (induction ns arbitrary: D P pq)
  case Nil
  then show ?case by simp
next
  case (Cons a ns)
  obtain n w where a: "a = (n, w)" by (cases a)
  from Cons.prems a obtain old where old: "D n = Some old" by auto
  from Cons.prems have rest: "fst ` set ns \<subseteq> dom D" by simp
  then have rest': "fst ` set ns \<subseteq> dom (D(n \<mapsto> Finite (cd + w)))" by auto
  from Cons.IH [OF rest] obtain st1 where
    1: "dijkstra_relax cd c V ns (D, P, pq) = Inr st1" by blast
  from Cons.IH [OF rest'] obtain st2 where
    2: "dijkstra_relax cd c V ns
          (D(n \<mapsto> Finite (cd + w)), P(n \<mapsto> Some c), heappush pq (cd + w, n)) = Inr st2"
    by blast
  have "dijkstra_relax cd c V ((n, w) # ns) (D, P, pq)
      = Inr (if n \<notin> V \<and> float_less (cd + w) old then st2 else st1)"
    using old 1 2 by (simp only: dijkstra_relax.simps option.case split: if_split) simp
  then show ?case unfolding a by blast
qed

lemma dijkstra_loop_dom:
  "dijkstra_loop g st V = Inr (D', P') \<Longrightarrow> dom D' = dom (fst st)"
proof (induction g st V rule: dijkstra_loop.induct)
  case (1 g distances parents visited)
  then show ?case by simp
next
  case (2 g distances parents current_dist current pq visited)
  show ?case
  proof (cases "current \<in> visited")
    case True
    with 2 show ?thesis by simp
  next
    case False
    with "2.prems" obtain st where
      r: "dijkstra_relax current_dist current (insert current visited)
            (get_neighbors g current) (distances, parents, pq) = Inr st"
      and l: "dijkstra_loop g st (insert current visited) = Inr (D', P')"
      by (auto split: sum.splits)
    obtain D1 P1 pq1 where st: "st = (D1, P1, pq1)" by (cases st)
    from "2.IH"(2) [OF False r l] dijkstra_relax_dom [OF r [unfolded st]] st
    show ?thesis by simp
  qed
qed

lemma dijkstra_loop_error:
  "dijkstra_loop g st V = Inl e \<Longrightarrow> e = KeyError"
proof (induction g st V rule: dijkstra_loop.induct)
  case (1 g distances parents visited)
  then show ?case by simp
next
  case (2 g distances parents current_dist current pq visited)
  show ?case
  proof (cases "current \<in> visited")
    case True
    with 2 show ?thesis by simp
  next
    case False
    show ?thesis
    proof (cases "dijkstra_relax current_dist current (insert current visited)
            (get_neighbors g current) (distances, parents, pq)")
      case (Inl e')
      with "2.prems" False have "e = e'" by simp
      with dijkstra_relax_error [OF Inl] show ?thesis by simp
    next
      case (Inr st)
      with "2.prems" False have "dijkstra_loop g st (insert current visited) = Inl e" by simp
      from "2.IH"(2) [OF False Inr this] show ?thesis .
    qed
  qed
qed

lemma dijkstra_loop_returns:
  "neighbors_closed g \<Longrightarrow> set (get_vertices g) \<subseteq> dom (fst st) \<Longrightarrow>
     \<exists>r. dijkstra_loop g st V = Inr r"
proof (induction g st V rule: dijkstra_loop.induct)
  case (1 g distances parents visited)
  then show ?case by simp
next
  case (2 g distances parents current_dist current pq visited)
  show ?case
  proof (cases "current \<in> visited")
    case True
    with 2 show ?thesis by simp
  next
    case False
    from "2.prems" have "fst ` set (get_neighbors g current) \<subseteq> dom distances"
      by (auto simp: neighbors_closed_def)
    from dijkstra_relax_returns [OF this] obtain st where
      r: "dijkstra_relax current_dist current (insert current visited)
            (get_neighbors g current) (distances, parents, pq) = Inr st" by blast
    obtain D1 P1 pq1 where st: "st = (D1, P1, pq1)" by (cases st)
    from dijkstra_relax_dom [OF r [unfolded st]] "2.prems"(2) st
    have "set (get_vertices g) \<subseteq> dom (fst st)" by simp
    from "2.IH"(2) [OF False r "2.prems"(1) this] r False show ?thesis by simp
  qed
qed

lemma dijkstra_initial_dom:
  "dom ((map_of (map (\<lambda>v. (v, Infinity)) vs))(start \<mapsto> Finite 0)) = insert start (set vs)"
  by (auto simp: dom_map_of_conv_image_fst image_image)

lemma dijkstra_dom:
  "dijkstra g start = Inr (distances, parents) \<Longrightarrow> dom distances = insert start (set (get_vertices g))"
  unfolding dijkstra_def Let_def
  by (drule dijkstra_loop_dom) (simp only: fst_conv dijkstra_initial_dom)

lemma dijkstra_returns:
  "neighbors_closed g \<Longrightarrow> \<exists>distances parents. dijkstra g start = Inr (distances, parents)"
proof -
  assume closed: "neighbors_closed g"
  let ?init = "((map_of (map (\<lambda>v. (v, Infinity)) (get_vertices g)))(start \<mapsto> Finite 0),
      map_of (map (\<lambda>v. (v, None)) (get_vertices g)), [(0, start)])"
  have "set (get_vertices g) \<subseteq> dom (fst ?init)"
    by (simp only: fst_conv dijkstra_initial_dom) blast
  from dijkstra_loop_returns [OF closed this, of "{}"] obtain r where
    "dijkstra_loop g ?init {} = Inr r" by blast
  then have "dijkstra g start = Inr (fst r, snd r)"
    by (simp only: dijkstra_def Let_def prod.collapse)
  then show ?thesis by blast
qed

lemma dijkstra_path_unknown_end:
  assumes "end_vertex \<notin> insert start (set (get_vertices g))"
  shows "dijkstra_path g start end_vertex = Some (Inl KeyError)"
proof (cases "dijkstra g start")
  case (Inl e)
  then have "e = KeyError" unfolding dijkstra_def Let_def by (rule dijkstra_loop_error)
  with Inl show ?thesis by (simp add: dijkstra_path_def)
next
  case (Inr r)
  obtain D P where r: "r = (D, P)" by (cases r)
  from dijkstra_dom [OF Inr [unfolded r]] assms have "D end_vertex = None" by blast
  with Inr r show ?thesis by (simp add: dijkstra_path_def)
qed

lemma bfs_visit_result:
  "bfs_visit_neighbors c d ns (D, P, Q, V) = (D', P', Q', V') \<Longrightarrow>
     V' = V \<union> fst ` set ns
     \<and> (\<forall>v. v \<in> V \<or> v \<notin> V' \<longrightarrow> D' v = D v \<and> P' v = P v)
     \<and> (\<forall>v. v \<in> V' \<and> v \<notin> V \<longrightarrow> D' v = Some (d + 1) \<and> P' v = Some (Some c))
     \<and> set Q' = set Q \<union> (V' - V)"
proof (induction ns arbitrary: D P Q V)
  case Nil
  then show ?case by simp
next
  case (Cons a ns)
  obtain n w where a: "a = (n, w)" by (cases a)
  show ?case
  proof (cases "n \<in> V")
    case True
    with Cons.prems a have "bfs_visit_neighbors c d ns (D, P, Q, V) = (D', P', Q', V')" by simp
    from Cons.IH [OF this] have
      "V' = V \<union> fst ` set ns"
      "\<forall>v. v \<in> V \<or> v \<notin> V' \<longrightarrow> D' v = D v \<and> P' v = P v"
      "\<forall>v. v \<in> V' \<and> v \<notin> V \<longrightarrow> D' v = Some (d + 1) \<and> P' v = Some (Some c)"
      "set Q' = set Q \<union> (V' - V)" by blast+
    moreover from True a have "V \<union> fst ` set (a # ns) = V \<union> fst ` set ns" by auto
    ultimately show ?thesis by simp
  next
    case False
    with Cons.prems a have "bfs_visit_neighbors c d ns
        (D(n \<mapsto> d + 1), P(n \<mapsto> Some c), Q @ [n], insert n V) = (D', P', Q', V')" by simp
    from Cons.IH [OF this] have
      1: "V' = insert n V \<union> fst ` set ns"
      and 2: "\<And>v. v \<in> insert n V \<or> v \<notin> V' \<Longrightarrow>
                D' v = (D(n \<mapsto> d + 1)) v \<and> P' v = (P(n \<mapsto> Some c)) v"
      and 3: "\<And>v. v \<in> V' \<Longrightarrow> v \<notin> insert n V \<Longrightarrow> D' v = Some (d + 1) \<and> P' v = Some (Some c)"
      and 4: "set Q' = set (Q @ [n]) \<union> (V' - insert n V)" by blast+
    from 1 have n: "n \<in> V'" by simp
    have A: "V' = V \<union> fst ` set (a # ns)" using 1 a by auto
    have B: "D' v = D v \<and> P' v = P v" if "v \<in> V \<or> v \<notin> V'" for v
    proof -
      from that n False have "v \<noteq> n" by auto
      moreover from that have "v \<in> insert n V \<or> v \<notin> V'" by auto
      from 2 [OF this] have "D' v = (D(n \<mapsto> d + 1)) v \<and> P' v = (P(n \<mapsto> Some c)) v" .
      ultimately show ?thesis by simp
    qed
    have C: "D' v = Some (d + 1) \<and> P' v = Some (Some c)" if "v \<in> V'" "v \<notin> V" for v
    proof (cases "v = n")
      case True
      with 2 [of n] show ?thesis by simp
    next
      case False
      with that 3 [of v] show ?thesis by simp
    qed
    have E: "set Q' = set Q \<union> (V' - V)" using 4 n False by auto
    from A B C E show ?thesis by blast
  qed
qed

lemma bfs_inv_initial: "bfs_inv g s ([s \<mapsto> 0], [s \<mapsto> None], [s], {s})"
  by (simp add: bfs_inv_def)

lemma bfs_inv_step:
  assumes inv: "bfs_inv g s (D, P, c # Q, V)" and dc: "D c = Some d"
  shows "bfs_inv g s (bfs_visit_neighbors c d (get_neighbors g c) (D, P, Q, V))"
proof -
  obtain D' P' Q' V' where
    st: "bfs_visit_neighbors c d (get_neighbors g c) (D, P, Q, V) = (D', P', Q', V')"
    by (cases "bfs_visit_neighbors c d (get_neighbors g c) (D, P, Q, V)") auto
  from bfs_visit_result [OF st] have
    V': "V' = V \<union> fst ` set (get_neighbors g c)"
    and old: "\<And>v. v \<in> V \<or> v \<notin> V' \<Longrightarrow> D' v = D v \<and> P' v = P v"
    and new: "\<And>v. v \<in> V' \<Longrightarrow> v \<notin> V \<Longrightarrow> D' v = Some (d + 1) \<and> P' v = Some (Some c)"
    and Q': "set Q' = set Q \<union> (V' - V)" by blast+
  from inv have domD: "dom D = V" and domP: "dom P = V" and QV: "set (c # Q) \<subseteq> V"
    and sV: "s \<in> V" and Ds: "D s = Some 0" and Ps: "P s = Some None"
    and par: "\<And>v. v \<in> V \<Longrightarrow> v \<noteq> s \<Longrightarrow>
          \<exists>p dp. P v = Some (Some p) \<and> p \<in> V \<and> (p, v) \<in> edges g
                 \<and> D p = Some dp \<and> 0 \<le> dp \<and> D v = Some (dp + 1)"
    and reach: "\<And>v. v \<in> V \<Longrightarrow> (s, v) \<in> (edges g)\<^sup>*"
    and closed: "\<And>v. v \<in> V \<Longrightarrow> v \<notin> set (c # Q) \<Longrightarrow> fst ` set (get_neighbors g v) \<subseteq> V"
    unfolding bfs_inv_def by (simp_all only: prod.case) blast+
  from QV have cV: "c \<in> V" by simp
  have d0: "0 \<le> d"
  proof (cases "c = s")
    case True
    with dc Ds show ?thesis by simp
  next
    case False
    from par [OF cV False] dc show ?thesis by auto
  qed
  have 1: "dom D' = V'"
  proof (intro set_eqI iffI)
    fix v assume "v \<in> dom D'"
    then show "v \<in> V'" using old [of v] domD V' by (cases "v \<in> V'") auto
  next
    fix v assume v: "v \<in> V'"
    show "v \<in> dom D'"
    proof (cases "v \<in> V")
      case True
      with old [of v] domD show ?thesis by auto
    next
      case False
      with new [OF v] show ?thesis by auto
    qed
  qed
  have 2: "dom P' = V'"
  proof (intro set_eqI iffI)
    fix v assume "v \<in> dom P'"
    then show "v \<in> V'" using old [of v] domP V' by (cases "v \<in> V'") auto
  next
    fix v assume v: "v \<in> V'"
    show "v \<in> dom P'"
    proof (cases "v \<in> V")
      case True
      with old [of v] domP show ?thesis by auto
    next
      case False
      with new [OF v] show ?thesis by auto
    qed
  qed
  have 3: "set Q' \<subseteq> V'" using Q' QV V' by auto
  have 4: "s \<in> V'" "D' s = Some 0" "P' s = Some None"
    using sV V' old [of s] Ds Ps by auto
  have 5: "\<exists>p dp. P' v = Some (Some p) \<and> p \<in> V' \<and> (p, v) \<in> edges g
                 \<and> D' p = Some dp \<and> 0 \<le> dp \<and> D' v = Some (dp + 1)"
    if v: "v \<in> V'" "v \<noteq> s" for v
  proof (cases "v \<in> V")
    case True
    from par [OF True v(2)] obtain p dp where
      p: "P v = Some (Some p)" "p \<in> V" "(p, v) \<in> edges g" "D p = Some dp" "0 \<le> dp"
         "D v = Some (dp + 1)" by blast
    from old [of v] old [of p] True p V' show ?thesis by auto
  next
    case False
    from v(1) False V' have "(c, v) \<in> edges g" by (auto simp: edges_def)
    with new [OF v(1) False] old [of c] cV dc d0 V' show ?thesis by auto
  qed
  have 6: "(s, v) \<in> (edges g)\<^sup>*" if v: "v \<in> V'" for v
  proof (cases "v \<in> V")
    case True
    then show ?thesis by (rule reach)
  next
    case False
    from v False V' have "(c, v) \<in> edges g" by (auto simp: edges_def)
    with reach [OF cV] show ?thesis by (rule rtrancl_into_rtrancl)
  qed
  have 7: "fst ` set (get_neighbors g v) \<subseteq> V'" if v: "v \<in> V'" "v \<notin> set Q'" for v
  proof (cases "v = c")
    case True
    with V' show ?thesis by auto
  next
    case False
    from v Q' have "v \<in> V" "v \<notin> set Q" by auto
    with False closed [of v] V' show ?thesis by auto
  qed
  from 1 2 3 4 5 6 7 show ?thesis unfolding st bfs_inv_def by (simp only: prod.case) blast
qed

lemma bfs_loop_inv:
  "bfs_inv g s st \<Longrightarrow> \<exists>D P. bfs_loop g st = Inr (D, P) \<and> bfs_inv g s (D, P, [], dom D)"
proof (induction g st rule: bfs_loop.induct)
  case (1 g distances parents visited)
  then show ?case by (auto simp: bfs_inv_def)
next
  case (2 g distances parents current queue visited)
  from "2.prems" have "current \<in> dom distances" by (auto simp: bfs_inv_def)
  then obtain d where d: "distances current = Some d" by auto
  from bfs_inv_step [OF "2.prems" d] have
    "bfs_inv g s (bfs_visit_neighbors current d (get_neighbors g current)
                    (distances, parents, queue, visited))" .
  from "2.IH" [OF d this] d show ?case by simp
qed

lemma bfs_result:
  "\<exists>D P. bfs g s = Inr (D, P) \<and> bfs_inv g s (D, P, [], dom D)"
  unfolding bfs_def by (rule bfs_loop_inv [OF bfs_inv_initial])

lemma bfs_inv_reach:
  assumes "bfs_inv g s (D, P, [], V)"
  shows "V = {v. (s, v) \<in> (edges g)\<^sup>*}"
proof (intro set_eqI iffI)
  fix v assume "v \<in> V"
  with assms show "v \<in> {v. (s, v) \<in> (edges g)\<^sup>*}" by (auto simp: bfs_inv_def)
next
  fix v assume "v \<in> {v. (s, v) \<in> (edges g)\<^sup>*}"
  then have "(s, v) \<in> (edges g)\<^sup>*" by simp
  then show "v \<in> V"
  proof (induction rule: rtrancl_induct)
    case base
    from assms show ?case by (auto simp: bfs_inv_def)
  next
    case (step y z)
    from assms step(3) have "fst ` set (get_neighbors g y) \<subseteq> V" by (auto simp: bfs_inv_def)
    with step(2) show ?case by (auto simp: edges_def)
  qed
qed

lemma is_walk_snoc:
  "is_walk g xs \<Longrightarrow> xs \<noteq> [] \<Longrightarrow> b \<in> fst ` set (get_neighbors g (last xs)) \<Longrightarrow> is_walk g (xs @ [b])"
  by (induction g xs rule: is_walk.induct) auto

lemma walk_parents_bfs:
  assumes inv: "bfs_inv g s (D, P, [], V)"
  shows "D v = Some (int n) \<Longrightarrow>
     \<exists>pre. walk_parents P (Some v) acc = Some (Inr (acc @ v # pre))
           \<and> is_walk g (rev (v # pre)) \<and> last (v # pre) = s \<and> length pre = n"
proof (induction n arbitrary: v acc)
  case 0
  from inv have domD: "dom D = V" and Ps: "P s = Some None"
    and par: "\<And>v. v \<in> V \<Longrightarrow> v \<noteq> s \<Longrightarrow>
          \<exists>p dp. P v = Some (Some p) \<and> D p = Some dp \<and> 0 \<le> dp \<and> D v = Some (dp + 1)"
    unfolding bfs_inv_def by (simp_all only: prod.case) blast+
  from 0 domD have vV: "v \<in> V" by auto
  have "v = s"
  proof (rule ccontr)
    assume "v \<noteq> s"
    from par [OF vV this] 0 show False by auto
  qed
  with Ps have "walk_parents P (Some v) acc = Some (Inr (acc @ [v]))"
    by (simp add: walk_parents.simps)
  with \<open>v = s\<close> show ?case by simp
next
  case (Suc n)
  from inv have domD: "dom D = V" and Ds: "D s = Some 0"
    and par: "\<And>v. v \<in> V \<Longrightarrow> v \<noteq> s \<Longrightarrow>
          \<exists>p dp. P v = Some (Some p) \<and> p \<in> V \<and> (p, v) \<in> edges g
                 \<and> D p = Some dp \<and> 0 \<le> dp \<and> D v = Some (dp + 1)"
    unfolding bfs_inv_def by (simp_all only: prod.case) blast+
  from Suc.prems domD have vV: "v \<in> V" by auto
  from Suc.prems Ds have vs: "v \<noteq> s" by auto
  from par [OF vV vs] Suc.prems obtain p where
    p: "P v = Some (Some p)" "(p, v) \<in> edges g" "D p = Some (int n)" by auto
  from Suc.IH [OF p(3), of "acc @ [v]"] obtain pre where
    pre: "walk_parents P (Some p) (acc @ [v]) = Some (Inr ((acc @ [v]) @ p # pre))"
      "is_walk g (rev (p # pre))" "last (p # pre) = s" "length pre = n" by blast
  from p(1) pre(1) have "walk_parents P (Some v) acc = Some (Inr (acc @ v # p # pre))"
    by (simp add: walk_parents.simps [of P "Some v"])
  moreover have "is_walk g (rev (v # p # pre))"
    using is_walk_snoc [OF pre(2), of v] p(2) by (simp add: edges_def)
  moreover have "last (v # p # pre) = s" using pre(3) by simp
  ultimately show ?case using pre(4) by auto
qed

lemma bfs_path_result:
  assumes "bfs g s = Inr (D, P)" and inv: "bfs_inv g s (D, P, [], dom D)"
  shows "e \<notin> dom D \<Longrightarrow> bfs_path g s e = Some (Inr None)"
    and "e \<in> dom D \<Longrightarrow>
           \<exists>path. bfs_path g s e = Some (Inr (Some path)) \<and> hd path = s \<and> last path = e
                  \<and> is_walk g path \<and> D e = Some (int (length path) - 1)"
proof -
  assume "e \<notin> dom D"
  with assms(1) show "bfs_path g s e = Some (Inr None)" by (simp add: bfs_path_def)
next
  assume e: "e \<in> dom D"
  then obtain d where d: "D e = Some d" by auto
  have "0 \<le> d"
  proof (cases "e = s")
    case True
    with inv d show ?thesis by (auto simp: bfs_inv_def)
  next
    case False
    with inv e d show ?thesis unfolding bfs_inv_def by (simp only: prod.case) force
  qed
  then obtain n where n: "d = int n" by (metis nonneg_int_cases)
  from walk_parents_bfs [OF inv d [unfolded n], of "[]"] obtain pre where
    pre: "walk_parents P (Some e) [] = Some (Inr (e # pre))"
      "is_walk g (rev (e # pre))" "last (e # pre) = s" "length pre = n" by auto
  from assms(1) e pre(1) have "bfs_path g s e = Some (Inr (Some (rev (e # pre))))"
    by (simp add: bfs_path_def)
  moreover have "hd (rev (e # pre)) = s" using pre(3) by (simp only: hd_rev)
  moreover have "last (rev (e # pre)) = e" by (simp only: last_rev list.sel)
  moreover have "D e = Some (int (length (rev (e # pre))) - 1)" using d n pre(4) by simp
  ultimately show "\<exists>path. bfs_path g s e = Some (Inr (Some path)) \<and> hd path = s \<and> last path = e
                  \<and> is_walk g path \<and> D e = Some (int (length path) - 1)"
    using pre(2) by blast
qed

lemma dfs_component_loop_result:
  "dfs_component_loop g stack visited component = (c', v') \<Longrightarrow>
     \<exists>new. c' = component @ new \<and> v' = visited \<union> set new \<and> distinct new
           \<and> set new \<inter> visited = {}"
proof (induction g stack visited component rule: dfs_component_loop.induct)
  case (1 g visited component)
  then show ?case by simp
next
  case (2 g current stack visited component)
  show ?case
  proof (cases "current \<in> visited")
    case True
    with "2.prems" have "dfs_component_loop g stack visited component = (c', v')" by simp
    with "2.IH"(2) True show ?thesis by blast
  next
    case False
    with "2.prems" have "dfs_component_loop g
        (push_unvisited (insert current visited) (get_neighbors g current) stack)
        (insert current visited) (component @ [current]) = (c', v')" by simp
    from "2.IH"(1) [OF False this] obtain new where
      new: "c' = (component @ [current]) @ new" "v' = insert current visited \<union> set new"
        "distinct new" "set new \<inter> insert current visited = {}" by blast
    show ?thesis
    proof (intro exI conjI)
      show "c' = component @ (current # new)" using new(1) by simp
      show "v' = visited \<union> set (current # new)" using new(2) by auto
      show "distinct (current # new)" using new(3,4) by auto
      show "set (current # new) \<inter> visited = {}" using new(4) False by auto
    qed
  qed
qed

lemma dfs_component_loop_vertices:
  "dfs_component_loop g stack visited component = (c', v') \<Longrightarrow> neighbors_closed g \<Longrightarrow>
     set stack \<union> set component \<subseteq> set (get_vertices g) \<Longrightarrow> set c' \<subseteq> set (get_vertices g)"
proof (induction g stack visited component rule: dfs_component_loop.induct)
  case (1 g visited component)
  then show ?case by simp
next
  case (2 g current stack visited component)
  show ?case
  proof (cases "current \<in> visited")
    case True
    with "2.prems" have "dfs_component_loop g stack visited component = (c', v')" by simp
    from "2.IH"(2) [OF _ this "2.prems"(2)] True "2.prems"(3) show ?thesis by simp
  next
    case False
    with "2.prems" have l: "dfs_component_loop g
        (push_unvisited (insert current visited) (get_neighbors g current) stack)
        (insert current visited) (component @ [current]) = (c', v')" by simp
    from "2.prems"(2) have "fst ` set (get_neighbors g current) \<subseteq> set (get_vertices g)"
      by (simp add: neighbors_closed_def)
    with "2.prems"(3) have
      "set (push_unvisited (insert current visited) (get_neighbors g current) stack)
         \<union> set (component @ [current]) \<subseteq> set (get_vertices g)"
      by (auto simp: push_unvisited_eq)
    from "2.IH"(1) [OF False l "2.prems"(2) this] show ?thesis .
  qed
qed

lemma dfs_component_result:
  assumes "start \<notin> visited" and "dfs_component g start visited = (c, v')"
  shows "start \<in> set c \<and> distinct c \<and> set c \<inter> visited = {} \<and> v' = visited \<union> set c"
proof -
  from assms(2) have "dfs_component_loop g [start] visited [] = (c, v')"
    by (simp only: dfs_component_def)
  with assms(1) have l: "dfs_component_loop g
      (push_unvisited (insert start visited) (get_neighbors g start) [])
      (insert start visited) ([] @ [start]) = (c, v')" by simp
  from dfs_component_loop_result [OF l] obtain new where
    "c = ([] @ [start]) @ new" "v' = insert start visited \<union> set new" "distinct new"
    "set new \<inter> insert start visited = {}" by blast
  with assms(1) show ?thesis by auto
qed

lemma find_components_loop_result:
  "\<exists>new. find_components_loop g vs visited comps = comps @ new \<and> distinct (concat new)
         \<and> set (concat new) \<inter> visited = {} \<and> set vs \<subseteq> visited \<union> set (concat new)
         \<and> [] \<notin> set new"
proof (induction vs arbitrary: visited comps)
  case Nil
  show ?case by simp
next
  case (Cons v vs)
  show ?case
  proof (cases "v \<in> visited")
    case True
    from Cons.IH [of visited comps] obtain new where
      "find_components_loop g vs visited comps = comps @ new" "distinct (concat new)"
      "set (concat new) \<inter> visited = {}" "set vs \<subseteq> visited \<union> set (concat new)"
      "[] \<notin> set new" by blast
    with True show ?thesis by auto
  next
    case False
    obtain c v' where c: "dfs_component g v visited = (c, v')"
      by (cases "dfs_component g v visited")
    from dfs_component_result [OF False c] have
      r: "v \<in> set c" "distinct c" "set c \<inter> visited = {}" "v' = visited \<union> set c" by auto
    from Cons.IH [of v' "comps @ [c]"] obtain new where
      new: "find_components_loop g vs v' (comps @ [c]) = (comps @ [c]) @ new"
        "distinct (concat new)" "set (concat new) \<inter> v' = {}"
        "set vs \<subseteq> v' \<union> set (concat new)" "[] \<notin> set new" by blast
    show ?thesis
    proof (intro exI conjI)
      show "find_components_loop g (v # vs) visited comps = comps @ (c # new)"
        using False c new(1) by simp
      show "distinct (concat (c # new))" using r new(2,3) by auto
      show "set (concat (c # new)) \<inter> visited = {}" using r new(3) by auto
      show "set (v # vs) \<subseteq> visited \<union> set (concat (c # new))" using r new(4) by auto
      show "[] \<notin> set (c # new)" using r(1) new(5) by auto
    qed
  qed
qed

lemma find_components_loop_vertices:
  "neighbors_closed g \<Longrightarrow> set vs \<subseteq> set (get_vertices g) \<Longrightarrow>
     set (concat comps) \<subseteq> set (get_vertices g) \<Longrightarrow>
     set (concat (find_components_loop g vs visited comps)) \<subseteq> set (get_vertices g)"
proof (induction vs arbitrary: visited comps)
  case Nil
  then show ?case by simp
next
  case (Cons v vs)
  show ?case
  proof (cases "v \<in> visited")
    case True
    with Cons show ?thesis by simp
  next
    case False
    obtain c v' where c: "dfs_component g v visited = (c, v')"
      by (cases "dfs_component g v visited")
    then have "dfs_component_loop g [v] visited [] = (c, v')" by (simp only: dfs_component_def)
    from dfs_component_loop_vertices [OF this Cons.prems(1)] Cons.prems(2)
    have "set c \<subseteq> set (get_vertices g)" by simp
    with Cons.prems have "set (concat (comps @ [c])) \<subseteq> set (get_vertices g)" by simp
    from Cons.IH [OF Cons.prems(1) _ this, of v'] Cons.prems(2) False c show ?thesis by simp
  qed
qed

lemma components_cover:
  "distinct (concat (find_connected_components g))"
  "set (get_vertices g) \<subseteq> set (concat (find_connected_components g))"
  "[] \<notin> set (find_connected_components g)"
  using find_components_loop_result [of g "get_vertices g" "{}" "[]"]
  by (auto simp: find_connected_components_def)

lemma components_vertices:
  "neighbors_closed g \<Longrightarrow> set (concat (find_connected_components g)) = set (get_vertices g)"
  using find_components_loop_vertices [of g "get_vertices g" "[]" "{}"] components_cover(2) [of g]
  by (auto simp: find_connected_components_def)

lemma is_connected_iff:
  "is_connected g \<longleftrightarrow>
     get_vertices g = [] \<or> (\<exists>c. find_connected_components g = [c] \<and> set (get_vertices g) \<subseteq> set c)"
proof (cases "get_vertices g = []")
  case True
  then show ?thesis by (simp add: is_connected_def)
next
  case False
  have "length (find_connected_components g) = 1
      \<longleftrightarrow> (\<exists>c. find_connected_components g = [c] \<and> set (get_vertices g) \<subseteq> set c)"
  proof
    assume "length (find_connected_components g) = 1"
    then obtain c where c: "find_connected_components g = [c]"
      by (cases "find_connected_components g") auto
    with components_cover(2) [of g] show
      "\<exists>c. find_connected_components g = [c] \<and> set (get_vertices g) \<subseteq> set c" by simp
  next
    assume "\<exists>c. find_connected_components g = [c] \<and> set (get_vertices g) \<subseteq> set c"
    then show "length (find_connected_components g) = 1" by auto
  qed
  with False show ?thesis by (simp add: is_connected_def)
qed

lemma heappush_commute: "heappush (heappush pq a) b = heappush (heappush pq b) a"
proof (induction pq)
  case Nil
  obtain d1 v1 where a: "a = (d1, v1)" by (cases a)
  obtain d2 v2 where b: "b = (d2, v2)" by (cases b)
  show ?case unfolding a b by auto
next
  case (Cons x pq)
  obtain d1 v1 where a: "a = (d1, v1)" by (cases a)
  obtain d2 v2 where b: "b = (d2, v2)" by (cases b)
  obtain d v where x: "x = (d, v)" by (cases x)
  from Cons show ?case unfolding a b x by auto
qed

lemma relax_step_Inl [simp]: "relax_step cd c V e (Inl err) = Inl err"
  by (simp add: relax_step_def)

lemma fold_relax_step_Inl [simp]: "fold (relax_step cd c V) ns (Inl err) = Inl err"
  by (induction ns) simp_all

lemma relax_step_cases:
  "relax_step cd c V (n, w) (Inr (D, P, pq)) =
     (if n \<in> V then Inr (D, P, pq)
      else case D n of
             None \<Rightarrow> Inl KeyError
           | Some old \<Rightarrow>
               if float_less (cd + w) old
               then Inr (D(n \<mapsto> Finite (cd + w)), P(n \<mapsto> Some c), heappush pq (cd + w, n))
               else Inr (D, P, pq))"
  by (simp add: relax_step_def split: option.splits)

lemma dijkstra_relax_fold:
  "dijkstra_relax cd c V ns st = fold (relax_step cd c V) ns (Inr st)"
proof (induction ns arbitrary: st)
  case Nil
  show ?case by simp
next
  case (Cons a ns)
  obtain n w where a: "a = (n, w)" by (cases a)
  obtain D P pq where st: "st = (D, P, pq)" by (cases st)
  show ?case unfolding a st
    by (simp add: relax_step_cases Cons.IH split: option.splits)
qed

lemma relax_step_idem:
  "relax_step cd c V e (relax_step cd c V e r) = relax_step cd c V e r"
proof (cases r)
  case (Inl err)
  then show ?thesis by simp
next
  case (Inr st)
  obtain n w where e: "e = (n, w)" by (cases e)
  obtain D P pq where st: "st = (D, P, pq)" by (cases st)
  show ?thesis unfolding Inr e st
    by (cases "D n") (simp_all add: relax_step_cases)
qed

lemma relax_step_commute:
  assumes "fst e \<noteq> fst e'"
  shows "relax_step cd c V e (relax_step cd c V e' r) = relax_step cd c V e' (relax_step cd c V e r)"
proof (cases r)
  case (Inl err)
  then show ?thesis by simp
next
  case (Inr st)
  obtain n w where e: "e = (n, w)" by (cases e)
  obtain n' w' where e': "e' = (n', w')" by (cases e')
  obtain D P pq where st: "st = (D, P, pq)" by (cases st)
  from assms e e' have ne: "n \<noteq> n'" by simp
  show ?thesis unfolding Inr e e' st
  proof (cases "D n"; cases "D n'")
    fix old old' assume "D n = Some old" "D n' = Some old'"
    with ne show "relax_step cd c V (n, w) (relax_step cd c V (n', w') (Inr (D, P, pq)))
        = relax_step cd c V (n', w') (relax_step cd c V (n, w) (Inr (D, P, pq)))"
      by (simp add: relax_step_cases fun_upd_twist heappush_commute)
  qed (use ne in \<open>simp_all add: relax_step_cases\<close>)
qed

lemma relax_comp_fun_idem:
  assumes "single_weighted S"
  shows "comp_fun_idem_on S (relax_step cd c V)"
proof
  fix x y assume "x \<in> S" "y \<in> S"
  show "relax_step cd c V y \<circ> relax_step cd c V x = relax_step cd c V x \<circ> relax_step cd c V y"
  proof (cases "fst x = fst y")
    case True
    with assms \<open>x \<in> S\<close> \<open>y \<in> S\<close> have "x = y"
      unfolding single_weighted_def by (metis prod.collapse)
    then show ?thesis by simp
  next
    case False
    then show ?thesis by (auto simp: fun_eq_iff relax_step_commute)
  qed
next
  fix x assume "x \<in> S"
  show "relax_step cd c V x \<circ> relax_step cd c V x = relax_step cd c V x"
    by (simp add: fun_eq_iff relax_step_idem)
qed

lemma dijkstra_relax_set:
  assumes "single_weighted (set ns)" and "set ns = set ns'"
  shows "dijkstra_relax cd c V ns st = dijkstra_relax cd c V ns' st"
proof -
  note idem = relax_comp_fun_idem [OF assms(1), of cd c V]
  have "fold (relax_step cd c V) ns (Inr st)
      = Finite_Set.fold (relax_step cd c V) (Inr st) (set ns)"
    by (rule comp_fun_idem_on.fold_set_fold [OF idem, symmetric]) simp
  also have "\<dots> = fold (relax_step cd c V) ns' (Inr st)"
    unfolding assms(2)
    by (rule comp_fun_idem_on.fold_set_fold [OF idem]) (simp add: assms(2))
  finally show ?thesis by (simp only: dijkstra_relax_fold)
qed

lemma dijkstra_loop_set:
  assumes "\<And>v. single_weighted (set (get_neighbors g v))"
    and "\<And>v. set (get_neighbors g v) = set (get_neighbors g' v)"
  shows "dijkstra_loop g st V = dijkstra_loop g' st V"
  using assms
proof (induction g st V rule: dijkstra_loop.induct)
  case (1 g distances parents visited)
  show ?case by simp
next
  case (2 g distances parents current_dist current pq visited)
  show ?case
  proof (cases "current \<in> visited")
    case True
    with "2.IH"(1) [OF True "2.prems"] show ?thesis by simp
  next
    case False
    have r: "dijkstra_relax current_dist current (insert current visited)
               (get_neighbors g current) (distances, parents, pq)
           = dijkstra_relax current_dist current (insert current visited)
               (get_neighbors g' current) (distances, parents, pq)"
      by (rule dijkstra_relax_set [OF "2.prems"(1) "2.prems"(2)])
    let ?R = "dijkstra_relax current_dist current (insert current visited)
               (get_neighbors g current) (distances, parents, pq)"
    have L: "dijkstra_loop g (distances, parents, (current_dist, current) # pq) visited
        = (case ?R of Inl e \<Rightarrow> Inl e | Inr st \<Rightarrow> dijkstra_loop g st (insert current visited))"
      using False by simp
    have L': "dijkstra_loop g' (distances, parents, (current_dist, current) # pq) visited
        = (case ?R of Inl e \<Rightarrow> Inl e | Inr st \<Rightarrow> dijkstra_loop g' st (insert current visited))"
      using False by (simp add: r)
    show ?thesis
    proof (cases ?R)
      case (Inl e)
      show ?thesis unfolding L L' Inl by simp
    next
      case (Inr st)
      from "2.IH"(2) [OF False Inr "2.prems"] show ?thesis unfolding L L' Inr by simp
    qed
  qed
qed

lemma dijkstra_fresh:
  assumes "fresh_edges (al_init d w) ops"
  shows "dijkstra (Matrix (am_run d w ops)) s = dijkstra (AdjList (al_run d w ops)) s"
proof -
  let ?m = "Matrix (am_run d w ops)" and ?l = "AdjList (al_run d w ops)"
  from fresh_run [OF assms] have
    a: "\<And>u v. am_get_weight (am_run d w ops) u v = al_get_weight (al_run d w ops) u v"
    and b: "al_functional (al_run d w ops)"
    by (simp_all add: weights_agree_def)
  have nb: "set (get_neighbors ?m v) = set (get_neighbors ?l v)" for v
    by (simp add: am_neighbors_weight [OF am_run_wf] al_functional_neighbors [OF b] a)
  have sw: "single_weighted (set (get_neighbors ?m v))" for v
    by (auto simp: single_weighted_def am_neighbors_weight [OF am_run_wf])
  from run_agree [of d w ops] have vs: "get_vertices ?m = get_vertices ?l"
    by (simp add: stores_agree_def)
  show ?thesis
    unfolding dijkstra_def Let_def vs by (rule dijkstra_loop_set [OF sw nb])
qed

lemma least_steps_unique: "least_steps E s v d \<Longrightarrow> least_steps E s v d' \<Longrightarrow> d = d'"
  unfolding least_steps_def by (metis linorder_neqE_nat)

lemma bfs_visit_queue:
  "bfs_visit_neighbors c d ns (D, P, Q, V) = (D', P', Q', V') \<Longrightarrow>
     \<exists>news. Q' = Q @ news \<and> set news = V' - V"
proof (induction ns arbitrary: D P Q V)
  case Nil
  then show ?case by simp
next
  case (Cons a ns)
  obtain n w where a: "a = (n, w)" by (cases a)
  show ?case
  proof (cases "n \<in> V")
    case True
    with Cons.prems a have "bfs_visit_neighbors c d ns (D, P, Q, V) = (D', P', Q', V')" by simp
    from Cons.IH [OF this] show ?thesis .
  next
    case False
    with Cons.prems a have r: "bfs_visit_neighbors c d ns
        (D(n \<mapsto> d + 1), P(n \<mapsto> Some c), Q @ [n], insert n V) = (D', P', Q', V')" by simp
    from Cons.IH [OF r] obtain news where
      news: "Q' = (Q @ [n]) @ news" "set news = V' - insert n V" by blast
    from bfs_visit_result [OF r] have "n \<in> V'" by simp
    with news False have "Q' = Q @ (n # news) \<and> set (n # news) = V' - V" by auto
    then show ?thesis by blast
  qed
qed

lemma bfs_level_inv_initial: "bfs_level_inv g s ([s \<mapsto> 0], [s \<mapsto> None], [s], {s})"
  by (simp add: bfs_level_inv_def least_steps_def)

lemma bfs_level_inv_step:
  assumes inv: "bfs_inv g s (D, P, c # Q, V)" and lev: "bfs_level_inv g s (D, P, c # Q, V)"
    and dc: "D c = Some dc"
  shows "bfs_level_inv g s (bfs_visit_neighbors c dc (get_neighbors g c) (D, P, Q, V))"
proof -
  let ?E = "edges g"
  obtain D' P' Q' V' where
    st: "bfs_visit_neighbors c dc (get_neighbors g c) (D, P, Q, V) = (D', P', Q', V')"
    by (cases "bfs_visit_neighbors c dc (get_neighbors g c) (D, P, Q, V)") auto
  from bfs_visit_result [OF st] have
    V': "V' = V \<union> fst ` set (get_neighbors g c)"
    and old: "\<And>v. v \<in> V \<Longrightarrow> D' v = D v"
    and new: "\<And>v. v \<in> V' \<Longrightarrow> v \<notin> V \<Longrightarrow> D' v = Some (dc + 1)" by blast+
  from bfs_visit_queue [OF st] obtain news where
    Q': "Q' = Q @ news" and news: "set news = V' - V" by blast
  from inv have QV: "set (c # Q) \<subseteq> V" and sV: "s \<in> V"
    and closed: "\<And>v. v \<in> V \<Longrightarrow> v \<notin> set (c # Q) \<Longrightarrow> fst ` set (get_neighbors g v) \<subseteq> V"
    unfolding bfs_inv_def by (simp_all only: prod.case) blast+
  from lev have A: "\<And>v. v \<in> V \<Longrightarrow> \<exists>d. D v = Some (int d) \<and> least_steps ?E s v d"
    and B1: "sorted (map (\<lambda>q. the (D q)) (c # Q))"
    and B2: "\<And>q. q \<in> set (c # Q) \<Longrightarrow> the (D q) \<le> the (D c) + 1"
    and J: "\<And>u m. (s, u) \<in> ?E ^^ m \<Longrightarrow> int m < the (D c) \<Longrightarrow> u \<in> V \<and> u \<notin> set (c # Q)"
    unfolding bfs_level_inv_def by (simp_all only: prod.case list.sel) blast+
  from QV have cV: "c \<in> V" by simp
  from A [OF cV] dc obtain d where d: "dc = int d" and cd: "least_steps ?E s c d" by auto
  from dc have Dc: "the (D c) = dc" by simp
  \<comment> \<open>every vertex within \<open>d\<close> steps is already visited, at its own least distance\<close>
  have K: "u \<in> V \<and> (\<exists>k\<le>m. D u = Some (int k))" if "(s, u) \<in> ?E ^^ m" "m \<le> d" for u m
  proof -
    have uV: "u \<in> V"
    proof (cases m)
      case 0
      with that(1) sV show ?thesis by simp
    next
      case (Suc m')
      with that(1) obtain p where p: "(s, p) \<in> ?E ^^ m'" "(p, u) \<in> ?E" by auto
      from Suc that(2) d Dc have "int m' < the (D c)" by simp
      from J [OF p(1) this] closed [of p] p(2) show ?thesis by (auto simp: edges_def)
    qed
    from A [OF uV] obtain k where k: "D u = Some (int k)" "least_steps ?E s u k" by blast
    from k(2) that(1) have "k \<le> m" unfolding least_steps_def by (meson not_le)
    with uV k(1) show ?thesis by blast
  qed
  have A': "\<exists>k. D' v = Some (int k) \<and> least_steps ?E s v k" if v: "v \<in> V'" for v
  proof (cases "v \<in> V")
    case True
    with A [OF True] old [OF True] show ?thesis by simp
  next
    case False
    from v False V' have e: "(c, v) \<in> ?E" by (auto simp: edges_def)
    from cd have "(s, c) \<in> ?E ^^ d" by (simp add: least_steps_def)
    with e have 1: "(s, v) \<in> ?E ^^ Suc d" by auto
    have 2: "(s, v) \<notin> ?E ^^ m" if "m < Suc d" for m
    proof
      assume "(s, v) \<in> ?E ^^ m"
      from K [OF this] that False show False by simp
    qed
    from new [OF v False] d have "D' v = Some (int (Suc d))" by simp
    with 1 2 show ?thesis unfolding least_steps_def by blast
  qed
  have vals: "the (D' q) = (if q \<in> V then the (D q) else dc + 1)" if "q \<in> V'" for q
    using that old [of q] new [of q] by auto
  have Qold: "map (\<lambda>q. the (D' q)) Q = map (\<lambda>q. the (D q)) Q"
    using QV old by (intro map_cong) auto
  have Qnew: "map (\<lambda>q. the (D' q)) news = map (\<lambda>q. dc + 1) news"
    using news new by (intro map_cong) auto
  from B1 Dc have lo: "\<And>q. q \<in> set Q \<Longrightarrow> dc \<le> the (D q)" by auto
  from B2 Dc have hi: "\<And>q. q \<in> set Q \<Longrightarrow> the (D q) \<le> dc + 1" by auto
  have B1': "sorted (map (\<lambda>q. the (D' q)) Q')"
    unfolding Q' map_append Qold Qnew using B1 hi
    by (auto simp: sorted_append map_replicate_const)
  have range': "dc \<le> the (D' q) \<and> the (D' q) \<le> dc + 1" if "q \<in> set Q'" for q
  proof (cases "q \<in> set Q")
    case True
    with QV old [of q] lo hi show ?thesis by auto
  next
    case False
    with that Q' news new [of q] show ?thesis by auto
  qed
  have B2': "the (D' q) \<le> the (D' (hd Q')) + 1" if "q \<in> set Q'" for q
  proof -
    from that have "hd Q' \<in> set Q'" by (cases Q') auto
    from range' [OF that] range' [OF this] show ?thesis by simp
  qed
  have J': "Q' = [] \<or> (u \<in> V' \<and> u \<notin> set Q')"
    if "(s, u) \<in> ?E ^^ m" "int m < the (D' (hd Q'))" for u m
  proof (cases "Q' = []")
    case True
    then show ?thesis by simp
  next
    case False
    then have h: "hd Q' \<in> set Q'" by simp
    from range' [OF h] that(2) d have "m \<le> d" by simp
    from K [OF that(1) this] obtain k where k: "u \<in> V" "k \<le> m" "D u = Some (int k)" by blast
    have "u \<notin> set Q'"
    proof
      assume u: "u \<in> set Q'"
      from B1' h u have "the (D' (hd Q')) \<le> the (D' u)"
        by (cases Q') auto
      with old [OF k(1)] k(2,3) that(2) show False by simp
    qed
    with k(1) V' show ?thesis by simp
  qed
  from A' B1' B2' J' show ?thesis unfolding st bfs_level_inv_def
    by (simp only: prod.case) blast
qed

lemma bfs_loop_level_inv:
  "bfs_inv g s st \<Longrightarrow> bfs_level_inv g s st \<Longrightarrow>
     \<exists>D P. bfs_loop g st = Inr (D, P) \<and> bfs_inv g s (D, P, [], dom D)
           \<and> bfs_level_inv g s (D, P, [], dom D)"
proof (induction g st rule: bfs_loop.induct)
  case (1 g distances parents visited)
  then show ?case by (auto simp: bfs_inv_def bfs_level_inv_def)
next
  case (2 g distances parents current queue visited)
  from "2.prems"(1) have "current \<in> dom distances" by (auto simp: bfs_inv_def)
  then obtain d where d: "distances current = Some d" by auto
  from "2.IH" [OF d bfs_inv_step [OF "2.prems"(1) d] bfs_level_inv_step [OF "2.prems" d]] d
  show ?case by simp
qed

lemma bfs_distances_least:
  "\<exists>D P. bfs g s = Inr (D, P) \<and> dom D = {v. (s, v) \<in> (edges g)\<^sup>*}
         \<and> (\<forall>v \<in> dom D. \<exists>d. D v = Some (int d) \<and> least_steps (edges g) s v d)"
proof -
  from bfs_loop_level_inv [OF bfs_inv_initial bfs_level_inv_initial, of g s] obtain D P where
    r: "bfs g s = Inr (D, P)" and inv: "bfs_inv g s (D, P, [], dom D)"
    and lev: "bfs_level_inv g s (D, P, [], dom D)" unfolding bfs_def by blast
  from lev have "\<forall>v \<in> dom D. \<exists>d. D v = Some (int d) \<and> least_steps (edges g) s v d"
    unfolding bfs_level_inv_def by (simp only: prod.case) blast
  with r bfs_inv_reach [OF inv] show ?thesis by blast
qed

lemma bfs_distances_edges:
  assumes "edges g = edges g'"
  shows "\<exists>D P P'. bfs g s = Inr (D, P) \<and> bfs g' s = Inr (D, P')"
proof -
  from bfs_distances_least [of g s] obtain D P where
    1: "bfs g s = Inr (D, P)" "dom D = {v. (s, v) \<in> (edges g)\<^sup>*}"
       "\<And>v. v \<in> dom D \<Longrightarrow> \<exists>d. D v = Some (int d) \<and> least_steps (edges g) s v d" by blast
  from bfs_distances_least [of g' s] obtain D' P' where
    2: "bfs g' s = Inr (D', P')" "dom D' = {v. (s, v) \<in> (edges g')\<^sup>*}"
       "\<And>v. v \<in> dom D' \<Longrightarrow> \<exists>d. D' v = Some (int d) \<and> least_steps (edges g') s v d" by blast
  from 1(2) 2(2) assms have dom: "dom D = dom D'" by simp
  have "D v = D' v" for v
  proof (cases "v \<in> dom D")
    case False
    with dom show ?thesis by (metis domIff)
  next
    case True
    from 1(3) [OF True] obtain d where d: "D v = Some (int d)" "least_steps (edges g) s v d"
      by blast
    from True dom 2(3) [of v] obtain d' where
      d': "D' v = Some (int d')" "least_steps (edges g') s v d'" by blast
    from least_steps_unique [OF d(2) d'(2) [folded assms]] d(1) d'(1) show ?thesis by simp
  qed
  then have "D = D'" by (rule ext)
  with 1(1) 2(1) show ?thesis by blast
qed

lemma avoiding_mono: "V \<subseteq> V' \<Longrightarrow> avoiding E V' \<subseteq> avoiding E V"
  by (auto simp: avoiding_def)

lemma reach_from_disjoint: "reach_from E V S \<inter> V = {}"
proof -
  have "x \<notin> V" if "(y, x) \<in> (avoiding E V)\<^sup>*" "y \<notin> V" for x y
    using that by (induction rule: rtrancl_induct) (auto simp: avoiding_def)
  then show ?thesis by (auto simp: reach_from_def)
qed

lemma path_split:
  assumes "(y, x) \<in> (avoiding E V)\<^sup>*" and "y \<notin> V"
  shows "x = c \<or> (y \<noteq> c \<and> (y, x) \<in> (avoiding E (insert c V))\<^sup>*)
         \<or> (\<exists>z. (c, z) \<in> E \<and> z \<notin> insert c V \<and> (z, x) \<in> (avoiding E (insert c V))\<^sup>*)"
  using assms(1)
proof (induction rule: rtrancl_induct)
  case base
  show ?case by (cases "y = c") auto
next
  case (step x x')
  from step(2) have e: "(x, x') \<in> E" "x \<notin> V" "x' \<notin> V" by (auto simp: avoiding_def)
  show ?case
  proof (cases "x' = c")
    case True
    then show ?thesis by simp
  next
    case False
    show ?thesis
    proof (cases "x = c")
      case True
      with e False have "(c, x') \<in> E \<and> x' \<notin> insert c V" by simp
      then show ?thesis by blast
    next
      case xc: False
      with e False have s: "(x, x') \<in> avoiding E (insert c V)" by (simp add: avoiding_def)
      from step.IH xc have
        "(y \<noteq> c \<and> (y, x) \<in> (avoiding E (insert c V))\<^sup>*)
         \<or> (\<exists>z. (c, z) \<in> E \<and> z \<notin> insert c V \<and> (z, x) \<in> (avoiding E (insert c V))\<^sup>*)"
        by blast
      with s show ?thesis by (meson rtrancl.rtrancl_into_rtrancl)
    qed
  qed
qed

lemma reach_from_visit:
  assumes "c \<notin> V" and "N = {z. (c, z) \<in> E}"
  shows "V \<union> reach_from E V (insert c S)
       = insert c V \<union> reach_from E (insert c V) ({z \<in> N. z \<notin> insert c V} \<union> S)"
proof (intro set_eqI iffI)
  fix x assume "x \<in> V \<union> reach_from E V (insert c S)"
  then show "x \<in> insert c V \<union> reach_from E (insert c V) ({z \<in> N. z \<notin> insert c V} \<union> S)"
  proof
    assume "x \<in> V" then show ?thesis by simp
  next
    assume "x \<in> reach_from E V (insert c S)"
    then obtain y where y: "y \<in> insert c S" "y \<notin> V" "(y, x) \<in> (avoiding E V)\<^sup>*"
      by (auto simp: reach_from_def)
    from path_split [OF y(3,2), of c] show ?thesis
    proof (elim disjE conjE exE)
      assume "x = c" then show ?thesis by simp
    next
      assume "y \<noteq> c" "(y, x) \<in> (avoiding E (insert c V))\<^sup>*"
      with y(1,2) show ?thesis unfolding reach_from_def by blast
    next
      fix z assume "(c, z) \<in> E" "z \<notin> insert c V" "(z, x) \<in> (avoiding E (insert c V))\<^sup>*"
      with assms(2) show ?thesis unfolding reach_from_def by blast
    qed
  qed
next
  fix x assume "x \<in> insert c V \<union> reach_from E (insert c V) ({z \<in> N. z \<notin> insert c V} \<union> S)"
  then consider "x \<in> V" | "x = c"
    | "x \<in> reach_from E (insert c V) ({z \<in> N. z \<notin> insert c V} \<union> S)" by blast
  then show "x \<in> V \<union> reach_from E V (insert c S)"
  proof cases
    case 1
    then show ?thesis by simp
  next
    case 2
    with assms(1) show ?thesis unfolding reach_from_def by blast
  next
    case 3
    then obtain y where y: "y \<in> {z \<in> N. z \<notin> insert c V} \<union> S" "y \<notin> insert c V"
      "(y, x) \<in> (avoiding E (insert c V))\<^sup>*" by (auto simp: reach_from_def)
    from y(3) have p: "(y, x) \<in> (avoiding E V)\<^sup>*"
      using avoiding_mono [of V "insert c V" E] by (meson rtrancl_mono subsetD subset_insertI)
    show ?thesis
    proof (cases "y \<in> S")
      case True
      with y(2) p show ?thesis unfolding reach_from_def by blast
    next
      case False
      with y(1,2) assms have "(c, y) \<in> avoiding E V" by (auto simp: avoiding_def)
      from this p have "(c, x) \<in> (avoiding E V)\<^sup>*" by (rule converse_rtrancl_into_rtrancl)
      with assms(1) show ?thesis unfolding reach_from_def by blast
    qed
  qed
qed

lemma dfs_component_loop_reach:
  "dfs_component_loop g stack visited component = (c', v') \<Longrightarrow>
     v' = visited \<union> reach_from (edges g) visited (set stack)"
proof (induction g stack visited component rule: dfs_component_loop.induct)
  case (1 g visited component)
  then show ?case by (simp add: reach_from_def)
next
  case (2 g current stack visited component)
  show ?case
  proof (cases "current \<in> visited")
    case True
    with "2.prems" have "dfs_component_loop g stack visited component = (c', v')" by simp
    from "2.IH"(2) [OF _ this] True
    have "v' = visited \<union> reach_from (edges g) visited (set stack)" by simp
    moreover from True have "reach_from (edges g) visited (set (current # stack))
        = reach_from (edges g) visited (set stack)" by (auto simp: reach_from_def)
    ultimately show ?thesis by simp
  next
    case False
    let ?N = "{z. (current, z) \<in> edges g}"
    from False "2.prems" have "dfs_component_loop g
        (push_unvisited (insert current visited) (get_neighbors g current) stack)
        (insert current visited) (component @ [current]) = (c', v')" by simp
    from "2.IH"(1) [OF False this] have
      "v' = insert current visited \<union> reach_from (edges g) (insert current visited)
         (set (push_unvisited (insert current visited) (get_neighbors g current) stack))" .
    moreover have "set (push_unvisited (insert current visited) (get_neighbors g current) stack)
        = {z \<in> ?N. z \<notin> insert current visited} \<union> set stack"
      by (auto simp: push_unvisited_eq edges_def)
    ultimately show ?thesis
      using reach_from_visit [OF False refl, of "edges g" "set stack"] by simp
  qed
qed

lemma dfs_component_edges:
  assumes "edges g = edges g'" and "start \<notin> visited"
    and "dfs_component g start visited = (c, v)" and "dfs_component g' start visited = (c', v')"
  shows "set c = set c' \<and> v = v'"
proof -
  from assms(3,4) have l: "dfs_component_loop g [start] visited [] = (c, v)"
    "dfs_component_loop g' [start] visited [] = (c', v')" by (simp_all only: dfs_component_def)
  from dfs_component_loop_reach [OF l(1)] dfs_component_loop_reach [OF l(2)] assms(1)
  have v: "v = v'" by simp
  from dfs_component_result [OF assms(2,3)] dfs_component_result [OF assms(2,4)] v
  show ?thesis by blast
qed

lemma find_components_loop_edges:
  assumes "edges g = edges g'"
  shows "map set comps = map set comps' \<Longrightarrow>
     map set (find_components_loop g vs visited comps)
       = map set (find_components_loop g' vs visited comps')"
proof (induction vs arbitrary: visited comps comps')
  case Nil
  then show ?case by simp
next
  case (Cons x vs)
  show ?case
  proof (cases "x \<in> visited")
    case True
    with Cons show ?thesis by simp
  next
    case False
    obtain c v where c: "dfs_component g x visited = (c, v)"
      by (cases "dfs_component g x visited")
    obtain c' v' where c': "dfs_component g' x visited = (c', v')"
      by (cases "dfs_component g' x visited")
    from dfs_component_edges [OF assms False c c'] have e: "set c = set c'" "v = v'" by simp_all
    with Cons.prems have "map set (comps @ [c]) = map set (comps' @ [c'])" by simp
    from Cons.IH [OF this, of v] False c c' e(2) show ?thesis by simp
  qed
qed

lemma components_edges:
  assumes "edges g = edges g'" and "get_vertices g = get_vertices g'"
  shows "map set (find_connected_components g) = map set (find_connected_components g')"
    and "is_connected g = is_connected g'"
proof -
  show m: "map set (find_connected_components g) = map set (find_connected_components g')"
    unfolding find_connected_components_def assms(2)
    by (rule find_components_loop_edges [OF assms(1)]) simp
  from m have "length (find_connected_components g) = length (find_connected_components g')"
    by (rule map_eq_imp_length_eq)
  with assms(2) show "is_connected g = is_connected g'" by (simp add: is_connected_def)
qed

lemma built_edges: "edges (Matrix (am_run d w ops)) = edges (AdjList (al_run d w ops))"
proof -
  from run_agree [of d w ops] have
    "\<And>u v. am_has_edge (am_run d w ops) u v = al_has_edge (al_run d w ops) u v"
    by (simp add: stores_agree_def)
  then show ?thesis
    unfolding edges_def
    by (simp add: am_neighbors_has_edge [OF am_run_wf] al_neighbors_has_edge)
qed

lemma components_list:
  "al_run False False components_ops =
     \<lparr>al_directed = False, al_weighted = False,
      al_graph = [(1, [(2, 1)]), (2, [(1, 1), (3, 1)]), (3, [(2, 1)]), (4, [(5, 1)]),
                  (5, [(4, 1)]), (6, [])]\<rparr>"
  by (simp add: al_eval components_ops_def)

lemma reach_closed:
  assumes "neighbors_closed g" and "(s, v) \<in> (edges g)\<^sup>*"
  shows "v \<in> insert s (set (get_vertices g))"
  using assms(2)
proof (induction rule: rtrancl_induct)
  case base
  show ?case by simp
next
  case (step y z)
  from step(2) assms(1) show ?case by (auto simp: edges_def neighbors_closed_def)
qed

subsection \<open>Breadth-first search and unreachable vertices (C8)\<close>

text \<open>
  C8: for every graph and start vertex \<^verbatim>\<open>bfs\<close> returns (it never raises), the keys of
  \<^verbatim>\<open>distances\<close> are exactly the vertices that can be reached from the start along
  \<^verbatim>\<open>get_neighbors\<close>, and \<^verbatim>\<open>parents\<close> has the same keys: an unreached vertex is in
  neither dictionary (and the values of \<^verbatim>\<open>distances\<close> are integers, so none is
  infinite). \<^verbatim>\<open>bfs_path\<close> returns \<^verbatim>\<open>None\<close> exactly when \<^verbatim>\<open>end\<close> is not a key of
  \<^verbatim>\<open>distances\<close>; otherwise it returns a list that starts with \<^verbatim>\<open>start\<close>, ends with
  \<^verbatim>\<open>end\<close>, follows edges of the graph and has \<^verbatim>\<open>distances[end]\<close> edges.
\<close>

theorem bfs_unreached_absent:
  "\<exists>distances parents.
     bfs g start = Inr (distances, parents)
     \<and> dom distances = {v. (start, v) \<in> (edges g)\<^sup>*}
     \<and> dom parents = dom distances
     \<and> (bfs_path g start end_vertex = Some (Inr None) \<longleftrightarrow> end_vertex \<notin> dom distances)
     \<and> (end_vertex \<in> dom distances \<longrightarrow>
          (\<exists>path. bfs_path g start end_vertex = Some (Inr (Some path))
                  \<and> hd path = start \<and> last path = end_vertex \<and> is_walk g path
                  \<and> distances end_vertex = Some (int (length path) - 1)))"
proof -
  from bfs_result [of g start] obtain D P where
    r: "bfs g start = Inr (D, P)" and inv: "bfs_inv g start (D, P, [], dom D)" by blast
  from bfs_inv_reach [OF inv] have 1: "dom D = {v. (start, v) \<in> (edges g)\<^sup>*}" .
  from inv have 2: "dom P = dom D" by (simp add: bfs_inv_def)
  note path = bfs_path_result [OF r inv, of end_vertex]
  have 3: "bfs_path g start end_vertex = Some (Inr None) \<longleftrightarrow> end_vertex \<notin> dom D"
    using path by (cases "end_vertex \<in> dom D") auto
  from r 1 2 3 path(2) show ?thesis by blast
qed

theorem bfs_unreached_absent_witness:
  "\<exists>distances parents.
     bfs (AdjList (al_run False False components_ops)) 1 = Inr (distances, parents)
     \<and> dom distances = {1, 2, 3} \<and> dom parents = {1, 2, 3}
     \<and> {v. (1, v) \<in> (edges (AdjList (al_run False False components_ops)))\<^sup>*} = {1, 2, 3}
     \<and> bfs_path (AdjList (al_run False False components_ops)) 1 4 = Some (Inr None)
     \<and> bfs_path (AdjList (al_run False False components_ops)) 1 3 = Some (Inr (Some [1, 2, 3]))"
proof -
  let ?g = "AdjList (al_run False False components_ops)"
  have b: "bfs ?g 1 = Inr ([1 \<mapsto> 0, 2 \<mapsto> 1, 3 \<mapsto> 2], [1 \<mapsto> None, 2 \<mapsto> Some 1, 3 \<mapsto> Some 2])"
    unfolding components_list bfs_def by (simp add: query_eval)
  have p3: "bfs_path ?g 1 3 = Some (Inr (Some [1, 2, 3]))"
    unfolding bfs_path_def b by (simp add: walk_parents.simps)
  from bfs_unreached_absent [of ?g 1 4] obtain D P where
    r: "bfs ?g 1 = Inr (D, P)" "dom D = {v. (1, v) \<in> (edges ?g)\<^sup>*}" "dom P = dom D"
       "bfs_path ?g 1 4 = Some (Inr None) \<longleftrightarrow> 4 \<notin> dom D" by blast
  from r(1) b have D: "D = [1 \<mapsto> 0, 2 \<mapsto> 1, 3 \<mapsto> 2]"
    and P: "P = [1 \<mapsto> None, 2 \<mapsto> Some 1, 3 \<mapsto> Some 2]" by simp_all
  from D have d: "dom D = {1, 2, 3}" by auto
  with r(3) have p: "dom P = {1, 2, 3}" by simp
  from d r(2) have e: "{v. (1, v) \<in> (edges ?g)\<^sup>*} = {1, 2, 3}" by simp
  from d have "4 \<notin> dom D" by simp
  with r(4) have p4: "bfs_path ?g 1 4 = Some (Inr None)" by simp
  from r(1) d p e p4 p3 show ?thesis by blast
qed

subsection \<open>Connectivity (C9)\<close>

text \<open>
  C9: \<^verbatim>\<open>is_connected\<close> is true exactly when the graph has no vertices or
  \<^verbatim>\<open>find_connected_components\<close> returns a single component, which then holds every
  vertex; a graph with no vertices is reported connected; and the components cover every
  vertex of the graph exactly once: no vertex occurs twice in them, within one or across
  two, every vertex of \<^verbatim>\<open>get_vertices()\<close> occurs in one, and none is empty.
\<close>

theorem connectivity_components:
  "(is_connected g \<longleftrightarrow>
      get_vertices g = []
      \<or> (\<exists>c. find_connected_components g = [c] \<and> set (get_vertices g) \<subseteq> set c))
   \<and> (get_vertices g = [] \<longrightarrow> is_connected g \<and> find_connected_components g = [])
   \<and> distinct (concat (find_connected_components g))
   \<and> set (get_vertices g) \<subseteq> set (concat (find_connected_components g))
   \<and> [] \<notin> set (find_connected_components g)
   \<and> (neighbors_closed g \<longrightarrow>
        set (concat (find_connected_components g)) = set (get_vertices g))"
proof -
  have "get_vertices g = [] \<longrightarrow> is_connected g \<and> find_connected_components g = []"
    by (simp add: is_connected_def find_connected_components_def)
  with is_connected_iff [of g] components_cover [of g] components_vertices [of g]
  show ?thesis by blast
qed

theorem connectivity_components_witness:
  "\<not> is_connected (AdjList (al_run False False components_ops))
   \<and> find_connected_components (AdjList (al_run False False components_ops))
       = [[1, 2, 3], [4, 5], [6]]
   \<and> get_vertices (AdjList (al_run False False components_ops)) = [1, 2, 3, 4, 5, 6]
   \<and> neighbors_closed (AdjList (al_run False False components_ops))
   \<and> is_connected (AdjList (al_run False False [AddEdge 1 2 1]))
   \<and> find_connected_components (AdjList (al_run False False [AddEdge 1 2 1])) = [[1, 2]]
   \<and> is_connected (Matrix (am_init False False))"
proof -
  let ?g = "AdjList (al_run False False components_ops)"
  let ?h = "AdjList (al_run False False [AddEdge 1 2 1])"
  have c: "find_connected_components ?g = [[1, 2, 3], [4, 5], [6]]"
    unfolding components_list
    by (simp add: find_connected_components_def dfs_component_def query_eval)
  have v: "get_vertices ?g = [1, 2, 3, 4, 5, 6]"
    unfolding components_list by (simp add: query_eval)
  have h: "find_connected_components ?h = [[1, 2]]"
    by (simp add: al_eval find_connected_components_def dfs_component_def query_eval)
  have e: "get_vertices (Matrix (am_init False False)) = []"
    by (simp add: am_init_def am_get_vertices_def)
  from connectivity_components [of ?g] have
    "is_connected ?g \<longleftrightarrow>
       get_vertices ?g = [] \<or> (\<exists>c. find_connected_components ?g = [c] \<and> set (get_vertices ?g) \<subseteq> set c)"
    by blast
  with c v have 1: "\<not> is_connected ?g" by simp
  from connectivity_components [of ?h] have
    "is_connected ?h \<longleftrightarrow>
       get_vertices ?h = [] \<or> (\<exists>c. find_connected_components ?h = [c] \<and> set (get_vertices ?h) \<subseteq> set c)"
    and "set (get_vertices ?h) \<subseteq> set (concat (find_connected_components ?h))"
    by blast+
  with h have 2: "is_connected ?h" by simp
  from connectivity_components [of "Matrix (am_init False False)"] e
  have 3: "is_connected (Matrix (am_init False False))" by blast
  from 1 2 3 c v h built_closed(2) [of False False components_ops] show ?thesis by blast
qed

subsection \<open>The keys of Dijkstra's distances (C10)\<close>

text \<open>
  C10: whenever \<^verbatim>\<open>dijkstra(graph, start)\<close> returns, the keys of its \<^verbatim>\<open>distances\<close> are
  \<^verbatim>\<open>get_vertices()\<close> plus \<^verbatim>\<open>start\<close>; it does return on every graph whose neighbours are
  all vertices, which holds of every store built by the methods. For an \<^verbatim>\<open>end\<close> that
  is neither in \<^verbatim>\<open>get_vertices()\<close> nor equal to \<^verbatim>\<open>start\<close>, \<^verbatim>\<open>dijkstra_path\<close> raises
  \<^verbatim>\<open>KeyError\<close>, where \<^verbatim>\<open>bfs_path\<close> on such a graph returns \<^verbatim>\<open>None\<close>.
\<close>

theorem dijkstra_distance_keys:
  "(\<forall>distances parents. dijkstra g start = Inr (distances, parents) \<longrightarrow>
       dom distances = insert start (set (get_vertices g)))
   \<and> (neighbors_closed g \<longrightarrow> (\<exists>distances parents. dijkstra g start = Inr (distances, parents)))
   \<and> neighbors_closed (Matrix (am_run d w ops)) \<and> neighbors_closed (AdjList (al_run d w ops))
   \<and> (end_vertex \<notin> insert start (set (get_vertices g)) \<longrightarrow>
        dijkstra_path g start end_vertex = Some (Inl KeyError)
        \<and> (neighbors_closed g \<longrightarrow> bfs_path g start end_vertex = Some (Inr None)))"
proof -
  have bfs_none: "bfs_path g start end_vertex = Some (Inr None)"
    if "end_vertex \<notin> insert start (set (get_vertices g))" "neighbors_closed g"
  proof -
    from bfs_result [of g start] obtain D P where
      r: "bfs g start = Inr (D, P)" and inv: "bfs_inv g start (D, P, [], dom D)" by blast
    from bfs_inv_reach [OF inv] reach_closed [OF that(2)] that(1) have "end_vertex \<notin> dom D"
      by blast
    then show ?thesis by (rule bfs_path_result(1) [OF r inv])
  qed
  from dijkstra_dom [of g start] dijkstra_returns [of g start] built_closed [of d w ops]
    dijkstra_path_unknown_end [of end_vertex start g] bfs_none
  show ?thesis by blast
qed

theorem dijkstra_distance_keys_witness:
  "neighbors_closed (AdjList (al_run False True reference_ops))
   \<and> get_vertices (AdjList (al_run False True reference_ops)) = [1, 2, 3, 4, 5]
   \<and> (\<exists>distances parents.
         dijkstra (AdjList (al_run False True reference_ops)) 1 = Inr (distances, parents)
         \<and> dom distances = {1, 2, 3, 4, 5})
   \<and> dijkstra_path (AdjList (al_run False True reference_ops)) 1 9 = Some (Inl KeyError)
   \<and> bfs_path (AdjList (al_run False True reference_ops)) 1 9 = Some (Inr None)"
proof -
  let ?g = "AdjList (al_run False True reference_ops)"
  have v: "get_vertices ?g = [1, 2, 3, 4, 5]"
    unfolding reference_list by (simp add: query_eval)
  then have out: "9 \<notin> insert 1 (set (get_vertices ?g))" by simp
  note t = dijkstra_distance_keys [of ?g 1 False True reference_ops 9]
  from t have closed: "neighbors_closed ?g" by blast
  with t obtain D P where r: "dijkstra ?g 1 = Inr (D, P)" by blast
  with t have "dom D = insert 1 (set (get_vertices ?g))" by blast
  with v have dom: "dom D = {1, 2, 3, 4, 5}" by auto
  from t out have k: "dijkstra_path ?g 1 9 = Some (Inl KeyError)" by blast
  from t out closed have b: "bfs_path ?g 1 9 = Some (Inr None)" by blast
  from closed v r dom k b show ?thesis by blast
qed

subsection \<open>The two stores compared (C1)\<close>

text \<open>
  C1, as stated, fails. After \<^verbatim>\<open>add_edge(1,2,3.0)\<close>, \<^verbatim>\<open>add_edge(1,2,7.0)\<close> the matrix
  store answers 7.0 to \<^verbatim>\<open>get_weight(1,2)\<close> and the list store 3.0, and Dijkstra from 1
  finds vertex 2 at distance 7 on the one and 3 on the other. Without any repeated
  edge the order of \<^verbatim>\<open>get_neighbors\<close> differs: the matrix store enumerates neighbours
  in the order the vertices were added, the list store in the order the edges were.
\<close>

theorem backend_equivalence_counterexample:
  "am_get_weight (am_run False True [AddEdge 1 2 3, AddEdge 1 2 7]) 1 2 = Some 7
   \<and> al_get_weight (al_run False True [AddEdge 1 2 3, AddEdge 1 2 7]) 1 2 = Some 3
   \<and> dijkstra (Matrix (am_run False True [AddEdge 1 2 3, AddEdge 1 2 7])) 1
       = Inr ([1 \<mapsto> Finite 0, 2 \<mapsto> Finite 7], [1 \<mapsto> None, 2 \<mapsto> Some 1])
   \<and> dijkstra (AdjList (al_run False True [AddEdge 1 2 3, AddEdge 1 2 7])) 1
       = Inr ([1 \<mapsto> Finite 0, 2 \<mapsto> Finite 3], [1 \<mapsto> None, 2 \<mapsto> Some 1])
   \<and> am_get_neighbors (am_run False False [AddVertex 1, AddVertex 2, AddEdge 1 3 1, AddEdge 1 2 1]) 1
       = [(2, 1), (3, 1)]
   \<and> al_get_neighbors (al_run False False [AddVertex 1, AddVertex 2, AddEdge 1 3 1, AddEdge 1 2 1]) 1
       = [(3, 1), (2, 1)]"
proof (intro conjI)
  show "am_get_weight (am_run False True [AddEdge 1 2 3, AddEdge 1 2 7]) 1 2 = Some 7"
    by (simp add: am_eval am_get_weight_def am_has_edge_def)
  show "al_get_weight (al_run False True [AddEdge 1 2 3, AddEdge 1 2 7]) 1 2 = Some 3"
    by (simp add: al_eval al_get_weight_def)
  have m: "am_run False True [AddEdge 1 2 3, AddEdge 1 2 7]
      = \<lparr>am_directed = False, am_weighted = True, am_vertices = [(1, 0), (2, 1)],
         am_index_to_vertex = [(0, 1), (1, 2)],
         am_matrix = [[None, Some 7], [Some 7, None]], am_vertex_count = 2\<rparr>"
    by (simp add: am_eval)
  show "dijkstra (Matrix (am_run False True [AddEdge 1 2 3, AddEdge 1 2 7])) 1
       = Inr ([1 \<mapsto> Finite 0, 2 \<mapsto> Finite 7], [1 \<mapsto> None, 2 \<mapsto> Some 1])"
    unfolding m dijkstra_def by (simp add: query_eval fun_eq_iff)
  have l: "al_run False True [AddEdge 1 2 3, AddEdge 1 2 7]
      = \<lparr>al_directed = False, al_weighted = True,
         al_graph = [(1, [(2, 3), (2, 7)]), (2, [(1, 3), (1, 7)])]\<rparr>"
    by (simp add: al_eval)
  show "dijkstra (AdjList (al_run False True [AddEdge 1 2 3, AddEdge 1 2 7])) 1
       = Inr ([1 \<mapsto> Finite 0, 2 \<mapsto> Finite 3], [1 \<mapsto> None, 2 \<mapsto> Some 1])"
    unfolding l dijkstra_def by (simp add: query_eval fun_eq_iff)
  show "am_get_neighbors (am_run False False [AddVertex 1, AddVertex 2, AddEdge 1 3 1, AddEdge 1 2 1]) 1
       = [(2, 1), (3, 1)]"
    by (simp add: am_eval query_eval)
  show "al_get_neighbors (al_run False False [AddVertex 1, AddVertex 2, AddEdge 1 3 1, AddEdge 1 2 1]) 1
       = [(3, 1), (2, 1)]"
    by (simp add: al_eval query_eval)
qed

text \<open>
  C1 as amended: for every sequence of \<^verbatim>\<open>add_vertex\<close>/\<^verbatim>\<open>add_edge\<close>/\<^verbatim>\<open>remove_edge\<close>
  calls applied to a fresh matrix store and a fresh list store with the same flags,
  \<^verbatim>\<open>get_vertices()\<close> returns the same list, \<^verbatim>\<open>has_edge\<close> gives the same answer for every
  pair, \<^verbatim>\<open>get_neighbors(u)\<close> names the same set of neighbours, \<^verbatim>\<open>bfs\<close> from any start
  returns the same \<^verbatim>\<open>distances\<close>, and \<^verbatim>\<open>find_connected_components\<close> returns, in the same
  order, components with the same vertex sets (so \<^verbatim>\<open>is_connected\<close> agrees). If moreover
  no \<^verbatim>\<open>add_edge\<close> of the sequence names a pair that already has an edge, \<^verbatim>\<open>get_weight\<close>
  gives the same answer for every pair, \<^verbatim>\<open>get_neighbors(u)\<close> holds the same set of
  (neighbour, weight) pairs, and \<^verbatim>\<open>dijkstra\<close> from any start returns the same result.
\<close>

theorem backend_equivalence_amended:
  "am_get_vertices (am_run d w ops) = al_get_vertices (al_run d w ops)
   \<and> am_has_edge (am_run d w ops) u v = al_has_edge (al_run d w ops) u v
   \<and> fst ` set (am_get_neighbors (am_run d w ops) u)
       = fst ` set (al_get_neighbors (al_run d w ops) u)
   \<and> (\<exists>distances parents parents'.
         bfs (Matrix (am_run d w ops)) s = Inr (distances, parents)
         \<and> bfs (AdjList (al_run d w ops)) s = Inr (distances, parents'))
   \<and> map set (find_connected_components (Matrix (am_run d w ops)))
       = map set (find_connected_components (AdjList (al_run d w ops)))
   \<and> is_connected (Matrix (am_run d w ops)) = is_connected (AdjList (al_run d w ops))
   \<and> (fresh_edges (al_init d w) ops \<longrightarrow>
        am_get_weight (am_run d w ops) u v = al_get_weight (al_run d w ops) u v
        \<and> set (am_get_neighbors (am_run d w ops) u) = set (al_get_neighbors (al_run d w ops) u)
        \<and> dijkstra (Matrix (am_run d w ops)) s = dijkstra (AdjList (al_run d w ops)) s)"
proof -
  from run_agree [of d w ops] have
    v: "am_get_vertices (am_run d w ops) = al_get_vertices (al_run d w ops)"
    and h: "\<And>u v. am_has_edge (am_run d w ops) u v = al_has_edge (al_run d w ops) u v"
    by (simp_all add: stores_agree_def)
  have n: "fst ` set (am_get_neighbors (am_run d w ops) u)
       = fst ` set (al_get_neighbors (al_run d w ops) u)"
    by (simp only: am_neighbors_has_edge [OF am_run_wf] al_neighbors_has_edge h)
  note e = built_edges [of d w ops]
  from v have gv: "get_vertices (Matrix (am_run d w ops)) = get_vertices (AdjList (al_run d w ops))"
    by simp
  note b = bfs_distances_edges [OF e, of s]
  note c = components_edges [OF e gv]
  have f: "am_get_weight (am_run d w ops) u v = al_get_weight (al_run d w ops) u v
        \<and> set (am_get_neighbors (am_run d w ops) u) = set (al_get_neighbors (al_run d w ops) u)
        \<and> dijkstra (Matrix (am_run d w ops)) s = dijkstra (AdjList (al_run d w ops)) s"
    if fresh: "fresh_edges (al_init d w) ops"
  proof -
    from fresh_run [OF fresh] have
      a: "\<And>u v. am_get_weight (am_run d w ops) u v = al_get_weight (al_run d w ops) u v"
      and fn: "al_functional (al_run d w ops)"
      by (simp_all add: weights_agree_def)
    have "set (am_get_neighbors (am_run d w ops) u) = set (al_get_neighbors (al_run d w ops) u)"
      by (simp only: am_neighbors_weight [OF am_run_wf] al_functional_neighbors [OF fn] a)
    with a [of u v] dijkstra_fresh [OF fresh, of s] show ?thesis by blast
  qed
  from v h [of u v] n b c f show ?thesis by blast
qed

theorem backend_equivalence_amended_witness:
  "fresh_edges (al_init False True) reference_ops
   \<and> am_get_vertices (am_run False True reference_ops) = [1, 2, 3, 4, 5]
   \<and> al_get_vertices (al_run False True reference_ops) = [1, 2, 3, 4, 5]
   \<and> am_get_weight (am_run False True reference_ops) 2 5 = Some 4
   \<and> al_get_weight (al_run False True reference_ops) 2 5 = Some 4
   \<and> am_has_edge (am_run False True reference_ops) 2 5
   \<and> al_has_edge (al_run False True reference_ops) 2 5
   \<and> set (am_get_neighbors (am_run False True reference_ops) 2) = {(1, 2), (3, 3), (5, 4)}
   \<and> set (al_get_neighbors (al_run False True reference_ops) 2) = {(1, 2), (3, 3), (5, 4)}
   \<and> map set (find_connected_components (Matrix (am_run False True reference_ops)))
       = [{1, 2, 3, 4, 5}]
   \<and> map set (find_connected_components (AdjList (al_run False True reference_ops)))
       = [{1, 2, 3, 4, 5}]
   \<and> dijkstra (Matrix (am_run False True reference_ops)) 1
       = dijkstra (AdjList (al_run False True reference_ops)) 1
   \<and> (\<exists>parents. bfs (Matrix (am_run False True reference_ops)) 1
         = Inr ([1 \<mapsto> 0, 2 \<mapsto> 1, 4 \<mapsto> 1, 3 \<mapsto> 2, 5 \<mapsto> 2], parents))
   \<and> (\<exists>parents. bfs (AdjList (al_run False True reference_ops)) 1
         = Inr ([1 \<mapsto> 0, 2 \<mapsto> 1, 4 \<mapsto> 1, 3 \<mapsto> 2, 5 \<mapsto> 2], parents))"
proof -
  let ?m = "am_run False True reference_ops" and ?l = "al_run False True reference_ops"
  have fresh: "fresh_edges (al_init False True) reference_ops"
    by (simp add: reference_ops_def fresh_step_def al_eval al_has_edge_def)
  have vs: "al_get_vertices ?l = [1, 2, 3, 4, 5]"
    unfolding reference_list by (simp add: query_eval)
  have wt: "al_get_weight ?l 2 5 = Some 4"
    unfolding reference_list by (simp add: al_get_weight_def al_entry_def)
  have he: "al_has_edge ?l 2 5"
    unfolding reference_list by (simp add: al_has_edge_def al_entry_def)
  have nb: "set (al_get_neighbors ?l 2) = {(1, 2), (3, 3), (5, 4)}"
    unfolding reference_list by (simp add: query_eval)
  have cc: "map set (find_connected_components (AdjList ?l)) = [{1, 2, 3, 4, 5}]"
    unfolding reference_list
    by (simp add: find_connected_components_def dfs_component_def query_eval) auto
  have bl: "bfs (AdjList ?l) 1
      = Inr ([1 \<mapsto> 0, 2 \<mapsto> 1, 4 \<mapsto> 1, 3 \<mapsto> 2, 5 \<mapsto> 2],
             [1 \<mapsto> None, 2 \<mapsto> Some 1, 4 \<mapsto> Some 1, 3 \<mapsto> Some 2, 5 \<mapsto> Some 2])"
    unfolding reference_list bfs_def by (simp add: query_eval)
  note t = backend_equivalence_amended [of False True reference_ops 2 5 1]
  from t fresh have
    1: "am_get_vertices ?m = al_get_vertices ?l"
    and 2: "am_has_edge ?m 2 5 = al_has_edge ?l 2 5"
    and 3: "am_get_weight ?m 2 5 = al_get_weight ?l 2 5"
    and 4: "set (am_get_neighbors ?m 2) = set (al_get_neighbors ?l 2)"
    and 5: "map set (find_connected_components (Matrix ?m))
              = map set (find_connected_components (AdjList ?l))"
    and 6: "dijkstra (Matrix ?m) 1 = dijkstra (AdjList ?l) 1"
    by blast+
  from t obtain D P P' where 7: "bfs (Matrix ?m) 1 = Inr (D, P)" "bfs (AdjList ?l) 1 = Inr (D, P')"
    by blast
  from 7(2) bl have "D = [1 \<mapsto> 0, 2 \<mapsto> 1, 4 \<mapsto> 1, 3 \<mapsto> 2, 5 \<mapsto> 2]" by simp
  with 7 have 8: "\<exists>parents. bfs (Matrix ?m) 1 = Inr ([1 \<mapsto> 0, 2 \<mapsto> 1, 4 \<mapsto> 1, 3 \<mapsto> 2, 5 \<mapsto> 2], parents)"
    "\<exists>parents. bfs (AdjList ?l) 1 = Inr ([1 \<mapsto> 0, 2 \<mapsto> 1, 4 \<mapsto> 1, 3 \<mapsto> 2, 5 \<mapsto> 2], parents)"
    by blast+
  from fresh vs wt he nb cc 1 2 3 4 5 6 8 show ?thesis by (simp only: simp_thms)
qed

end
